theory Spec2Isabelle
  imports Main "HOL-Library.AList" "HOL-Library.Sublist" "HOL-Library.Multiset"
begin

section \<open>bs4tag: the SimpleDoc document builder (src/bs4tag/simpledoc.py)\<close>

text \<open>
  A shallow embedding of \<^verbatim>\<open>SimpleDoc\<close>: the builder keeps a BeautifulSoup tree, a
  reference \<^verbatim>\<open>current_tag\<close> to the scope that receives new children, and the
  \<^verbatim>\<open>SimpleDoc.Tag\<close> objects the \<^verbatim>\<open>with\<close> statements enter and leave.
  Objects that are mutated through references (the tree nodes, the Tag objects) live in
  explicit stores and are named by their address; every raise of the source is an
  outcome of the model.
\<close>

subsection \<open>Python values and exceptions\<close>

text \<open>
  The values the builder's callers pass. A \<^verbatim>\<open>str\<close> is the list of the bytes of its
  UTF-8 encoding (nothing in the source indexes a string or counts its characters, and
  all the separators it looks for are ASCII); \<^verbatim>\<open>bytes\<close> are their bytes. A float is
  kept as the text \<^verbatim>\<open>str()\<close> gives for it, which is all the source ever reads of one.
  Tuples only occur as the (key, value) pairs of the attribute arguments, see \<open>arg\<close>.
\<close>

datatype pyval =
    PNone
  | PBool bool
  | PInt int
  | PFloat string
  | PStr string
  | PBytes string
  | PList "pyval list"

text \<open>\<^verbatim>\<open>isinstance(v, (int, float))\<close>: a \<^verbatim>\<open>bool\<close> is an \<^verbatim>\<open>int\<close>.\<close>

fun is_number :: "pyval \<Rightarrow> bool" where
  "is_number (PInt i) = True"
| "is_number (PFloat r) = True"
| "is_number (PBool b) = True"
| "is_number _ = False"

text \<open>
  The exception classes the source and the library calls it makes can raise.
  \<open>DocumentRootError\<close> derives from \<open>DocError\<close> and \<open>AttributeError\<close>,
  \<open>UnicodeDecodeError\<close> from \<open>ValueError\<close>; \<open>Exception\<close> stands for whatever else the
  body of a \<^verbatim>\<open>with\<close> block raises.
\<close>

datatype error =
    ValueError
  | TypeError
  | AttributeError
  | AssertionError
  | IndexError
  | DocumentRootError
  | UnicodeDecodeError
  | Exception string

definition is_AttributeError :: "error \<Rightarrow> bool" where
  "is_AttributeError e = (e = AttributeError \<or> e = DocumentRootError)"

definition is_TypeError :: "error \<Rightarrow> bool" where
  "is_TypeError e = (e = TypeError)"

subsection \<open>Strings\<close>

text \<open>\<^verbatim>\<open>sep.join(parts)\<close>.\<close>

fun join :: "string \<Rightarrow> string list \<Rightarrow> string" where
  "join sep [] = []"
| "join sep [p] = p"
| "join sep (p # q # ps) = p @ sep @ join sep (q # ps)"

text \<open>
  \<^verbatim>\<open>s.split(sep)\<close> for a separator that is not empty: the occurrences are taken from
  the left and do not overlap; the result always has at least one piece.
  (Python raises ValueError for an empty separator; the source only passes literals.)
\<close>

fun cons_piece :: "char \<Rightarrow> string list \<Rightarrow> string list" where
  "cons_piece c [] = [[c]]"
| "cons_piece c (p # ps) = (c # p) # ps"

function split :: "string \<Rightarrow> string \<Rightarrow> string list" where
  "split sep [] = [[]]"
| "split sep (c # cs) =
     (if sep \<noteq> [] \<and> prefix sep (c # cs)
      then [] # split sep (drop (length sep) (c # cs))
      else cons_piece c (split sep cs))"
  by pat_completeness auto
termination
  by (relation "measure (\<lambda>(sep, s). length s)") (auto simp: prefix_def)

text \<open>\<^verbatim>\<open>s.replace(old, new)\<close> for a pattern \<open>old\<close> that is not empty.\<close>

definition replace :: "string \<Rightarrow> string \<Rightarrow> string \<Rightarrow> string" where
  "replace s old new = join new (split old s)"

text \<open>
  \<^verbatim>\<open>_newline_rgx.split(s)\<close> for \<^verbatim>\<open>_newline_rgx = re.compile(r'\r?\n')\<close>: a line feed,
  with the carriage return right before it when there is one, ends a piece.
\<close>

fun newline_rgx_split :: "string \<Rightarrow> string list" where
  "newline_rgx_split [] = [[]]"
| "newline_rgx_split [c] = (if c = CHR 0x0A then [[], []] else [[c]])"
| "newline_rgx_split (c # d # cs) =
     (if c = CHR 0x0D \<and> d = CHR 0x0A then [] # newline_rgx_split cs
      else if c = CHR 0x0A then [] # newline_rgx_split (d # cs)
      else cons_piece c (newline_rgx_split (d # cs)))"

text \<open>
  \<^verbatim>\<open>s.split()\<close> with no separator: the maximal runs without whitespace, none empty.
  The first argument lists the encodings of the whitespace characters: for a
  \<^verbatim>\<open>str\<close> the Unicode ones (in UTF-8), for \<^verbatim>\<open>bytes\<close> the six ASCII ones.
\<close>

definition str_whitespace :: "string list" where
  "str_whitespace =
     [[CHR 0x09], [CHR 0x0A], [CHR 0x0B], [CHR 0x0C], [CHR 0x0D],
      [CHR 0x1C], [CHR 0x1D], [CHR 0x1E], [CHR 0x1F], [CHR 0x20],
      [CHR 0xC2, CHR 0x85], [CHR 0xC2, CHR 0xA0], [CHR 0xE1, CHR 0x9A, CHR 0x80],
      [CHR 0xE2, CHR 0x80, CHR 0x80], [CHR 0xE2, CHR 0x80, CHR 0x81],
      [CHR 0xE2, CHR 0x80, CHR 0x82], [CHR 0xE2, CHR 0x80, CHR 0x83],
      [CHR 0xE2, CHR 0x80, CHR 0x84], [CHR 0xE2, CHR 0x80, CHR 0x85],
      [CHR 0xE2, CHR 0x80, CHR 0x86], [CHR 0xE2, CHR 0x80, CHR 0x87],
      [CHR 0xE2, CHR 0x80, CHR 0x88], [CHR 0xE2, CHR 0x80, CHR 0x89],
      [CHR 0xE2, CHR 0x80, CHR 0x8A], [CHR 0xE2, CHR 0x80, CHR 0xA8],
      [CHR 0xE2, CHR 0x80, CHR 0xA9], [CHR 0xE2, CHR 0x80, CHR 0xAF],
      [CHR 0xE2, CHR 0x81, CHR 0x9F], [CHR 0xE3, CHR 0x80, CHR 0x80]]"

definition bytes_whitespace :: "string list" where
  "bytes_whitespace =
     [[CHR 0x09], [CHR 0x0A], [CHR 0x0B], [CHR 0x0C], [CHR 0x0D], [CHR 0x20]]"

definition flush :: "string \<Rightarrow> string list" where
  "flush tok = (if tok = [] then [] else [tok])"

function split_whitespace :: "string list \<Rightarrow> string \<Rightarrow> string \<Rightarrow> string list" where
  "split_whitespace ws tok [] = flush tok"
| "split_whitespace ws tok (c # cs) =
     (case find (\<lambda>w. w \<noteq> [] \<and> prefix w (c # cs)) ws of
        Some w \<Rightarrow> flush tok @ split_whitespace ws [] (drop (length w) (c # cs))
      | None \<Rightarrow> split_whitespace ws (tok @ [c]) cs)"
  by pat_completeness auto
termination
  by (relation "measure (\<lambda>(ws, tok, s). length s)") (auto simp: find_Some_iff prefix_def)

text \<open>\<^verbatim>\<open>str(n)\<close> for an int, and \<^verbatim>\<open>str(b)\<close> for a bool.\<close>

function str_nat :: "nat \<Rightarrow> string" where
  "str_nat n =
     (if n < 10 then [char_of (48 + n)]
      else str_nat (n div 10) @ [char_of (48 + n mod 10)])"
  by pat_completeness auto
termination
  by (relation "measure id") auto

definition str_int :: "int \<Rightarrow> string" where
  "str_int i = (if i < 0 then CHR ''-'' # str_nat (nat (- i)) else str_nat (nat i))"

definition str_bool :: "bool \<Rightarrow> string" where
  "str_bool b = (if b then ''True'' else ''False'')"

text \<open>
  \<^verbatim>\<open>bytes.decode('utf-8')\<close>, as \<^verbatim>\<open>str(value, 'utf-8')\<close> runs it: the bytes of a
  well-formed UTF-8 text are that text, anything else is a UnicodeDecodeError.
\<close>

definition continuation :: "char \<Rightarrow> bool" where
  "continuation c = (0x80 \<le> (of_char c :: nat) \<and> (of_char c :: nat) \<le> 0xBF)"

definition between :: "nat \<Rightarrow> char \<Rightarrow> nat \<Rightarrow> bool" where
  "between lo c hi = (lo \<le> of_char c \<and> of_char c \<le> hi)"

fun valid_utf8 :: "string \<Rightarrow> bool" where
  "valid_utf8 [] = True"
| "valid_utf8 (a # rest) =
     (if between 0x00 a 0x7F then valid_utf8 rest
      else if between 0xC2 a 0xDF then
        (case rest of b # r \<Rightarrow> continuation b \<and> valid_utf8 r | _ \<Rightarrow> False)
      else if between 0xE0 a 0xEF then
        (case rest of
           b # c # r \<Rightarrow>
             (if a = CHR 0xE0 then between 0xA0 b 0xBF
              else if a = CHR 0xED then between 0x80 b 0x9F
              else continuation b)
             \<and> continuation c \<and> valid_utf8 r
         | _ \<Rightarrow> False)
      else if between 0xF0 a 0xF4 then
        (case rest of
           b # c # d # r \<Rightarrow>
             (if a = CHR 0xF0 then between 0x90 b 0xBF
              else if a = CHR 0xF4 then between 0x80 b 0x8F
              else continuation b)
             \<and> continuation c \<and> continuation d \<and> valid_utf8 r
         | _ \<Rightarrow> False)
      else False)"

definition decode_utf8 :: "string \<Rightarrow> error + string" where
  "decode_utf8 bs = (if valid_utf8 bs then Inr bs else Inl UnicodeDecodeError)"

subsection \<open>Attribute dictionaries\<close>

text \<open>
  A \<^verbatim>\<open>dict\<close> with \<^verbatim>\<open>str\<close> keys, in insertion order: storing under a key that is
  present replaces its value in place, a new key goes to the end
  (\<open>AList.update\<close>). \<open>PNone\<close> as a value is \<^verbatim>\<open>ATTR_NO_VALUE\<close>.
\<close>

type_synonym dict = "(string \<times> pyval) list"

text \<open>\<^verbatim>\<open>d.update(other)\<close>; \<^verbatim>\<open>dict(pairs)\<close> is the update of the empty dict.\<close>

definition dict_update :: "dict \<Rightarrow> (string \<times> pyval) list \<Rightarrow> dict" where
  "dict_update d other = fold (\<lambda>(k, v). AList.update k v) other d"

text \<open>
  One positional attribute argument of \<^verbatim>\<open>tag\<close>, \<^verbatim>\<open>attr\<close> and \<^verbatim>\<open>stag\<close>: a
  (key, value) tuple as their type comment has it,
  \<^verbatim>\<open>Tuple[str, Union[str, int, float]]\<close>, or any value that is not a tuple.
\<close>

datatype arg = Pair string pyval | Val pyval

text \<open>
  \<^verbatim>\<open>_attributes(args, kwargs)\<close>: the loop over the positional arguments, then
  \<^verbatim>\<open>dict(lst)\<close> and the update with the keyword arguments, where \<^verbatim>\<open>klass\<close>
  is renamed.
\<close>

fun attributes_loop :: "arg list \<Rightarrow> (string \<times> pyval) list \<Rightarrow> error + (string \<times> pyval) list" where
  "attributes_loop [] lst = Inr lst"
| "attributes_loop (Pair k v # args) lst = attributes_loop args (lst @ [(k, v)])"
| "attributes_loop (Val (PStr s) # args) lst = attributes_loop args (lst @ [(s, PNone)])"
| "attributes_loop (Val _ # args) lst = Inl ValueError"

definition klass :: "string \<times> pyval \<Rightarrow> string \<times> pyval" where
  "klass kv = (if fst kv = ''klass'' then (''class'', snd kv) else kv)"

definition attributes :: "arg list \<Rightarrow> dict \<Rightarrow> error + dict" where
  "attributes args kwargs =
     (case attributes_loop args [] of
        Inl e \<Rightarrow> Inl e
      | Inr lst \<Rightarrow> Inr (dict_update (dict_update [] lst) (map klass kwargs)))"

text \<open>
  \<^verbatim>\<open>html_escape\<close> and \<^verbatim>\<open>attr_escape\<close>. A \<^verbatim>\<open>bool\<close> is an \<^verbatim>\<open>int\<close> for
  \<^verbatim>\<open>isinstance\<close>. Of the other values, \<^verbatim>\<open>None\<close> and a list have no
  \<^verbatim>\<open>replace\<close> (the AttributeError is turned into the TypeError), and the
  \<^verbatim>\<open>replace\<close> of \<^verbatim>\<open>bytes\<close> refuses \<^verbatim>\<open>str\<close> arguments with a TypeError.
\<close>

fun html_escape :: "pyval \<Rightarrow> error + string" where
  "html_escape (PInt i) = Inr (str_int i)"
| "html_escape (PBool b) = Inr (str_bool b)"
| "html_escape (PFloat r) = Inr r"
| "html_escape (PStr s) =
     Inr (replace (replace (replace s ''&'' ''&amp;'') ''<'' ''&lt;'') ''>'' ''&gt;'')"
| "html_escape _ = Inl TypeError"

fun attr_escape :: "pyval \<Rightarrow> error + string" where
  "attr_escape (PInt i) = Inr (str_int i)"
| "attr_escape (PBool b) = Inr (str_bool b)"
| "attr_escape (PFloat r) = Inr r"
| "attr_escape (PStr s) =
     Inr (replace (replace (replace s ''&'' ''&amp;'') ''<'' ''&lt;'') [CHR 0x22] ''&quot;'')"
| "attr_escape _ = Inl TypeError"

text \<open>\<^verbatim>\<open>dict_to_attrs(dct)\<close>: the comprehension over \<^verbatim>\<open>dct.items()\<close>.\<close>

fun dict_to_attrs_loop :: "dict \<Rightarrow> dict \<Rightarrow> error + dict" where
  "dict_to_attrs_loop [] acc = Inr acc"
| "dict_to_attrs_loop ((key, v) # dct) acc =
     (if v = PNone then dict_to_attrs_loop dct (AList.update key PNone acc)
      else (case attr_escape v of
              Inl e \<Rightarrow> Inl e
            | Inr s \<Rightarrow> dict_to_attrs_loop dct (AList.update key (PStr s) acc)))"

definition dict_to_attrs :: "dict \<Rightarrow> error + dict" where
  "dict_to_attrs dct = dict_to_attrs_loop dct []"

subsection \<open>The tree and the builder's state\<close>

text \<open>
  The objects of the BeautifulSoup tree, by address. \<open>BeautifulSoup\<close> is a parsed
  document: the parser is outside the repository, so the node keeps the arguments it was
  called with and the children appended to it since. \<open>Bs4Tag\<close> is an element: its
  name, \<^verbatim>\<open>attrs\<close>, \<^verbatim>\<open>contents\<close> and \<^verbatim>\<open>can_be_empty_element\<close>. \<open>Other\<close> is a
  string object of another class that only a parser makes (a \<^verbatim>\<open>Doctype\<close>, a
  \<^verbatim>\<open>Comment\<close>), by the name of its class and its text.
\<close>

type_synonym addr = nat

datatype bs4_node =
    BeautifulSoup "pyval list" dict "addr list"
  | Bs4Tag string dict "addr list" bool
  | NavigableString string
  | CData string
  | Other string string

fun contents :: "bs4_node \<Rightarrow> addr list" where
  "contents (BeautifulSoup _ _ cs) = cs"
| "contents (Bs4Tag _ _ cs _) = cs"
| "contents _ = []"

fun append_child :: "addr \<Rightarrow> bs4_node \<Rightarrow> bs4_node" where
  "append_child c (BeautifulSoup a k cs) = BeautifulSoup a k (cs @ [c])"
| "append_child c (Bs4Tag n a cs f) = Bs4Tag n a (cs @ [c]) f"
| "append_child c n = n"

fun update_attrs :: "dict \<Rightarrow> bs4_node \<Rightarrow> bs4_node" where
  "update_attrs new (Bs4Tag n a cs f) = Bs4Tag n (dict_update a new) cs f"
| "update_attrs new n = n"

fun set_can_be_empty_element :: "bool \<Rightarrow> bs4_node \<Rightarrow> bs4_node" where
  "set_can_be_empty_element b (Bs4Tag n a cs f) = Bs4Tag n a cs b"
| "set_can_be_empty_element b n = n"

text \<open>
  \<open>current_tag\<close> is the \<^verbatim>\<open>DocumentRoot\<close> object or a \<^verbatim>\<open>SimpleDoc.Tag\<close> object.
  A Tag object has its pending attribute dict, the element it made in \<^verbatim>\<open>__init__\<close>
  and, once entered, the \<open>parent_tag\<close> it found as \<open>current_tag\<close>.
\<close>

datatype cur = DocumentRoot | TagRef addr

record simpledoc_tag =
  name :: string
  attrs :: dict
  bs4_tag :: addr
  parent_tag :: "cur option"

text \<open>
  The \<^verbatim>\<open>SimpleDoc\<close> object: \<open>heap\<close> holds the tree's objects and \<open>soup\<close> is the
  address of \<^verbatim>\<open>self.soup\<close>; \<open>tags\<close> holds the Tag objects made so far;
  \<open>empty_element_tags\<close> is the set of void element names of the tree builder that
  the parser chose (\<open>None\<close>: every element may be empty), which decides
  \<^verbatim>\<open>can_be_empty_element\<close> of a new element.
\<close>

record simpledoc =
  heap :: "bs4_node list"
  soup :: addr
  tags :: "simpledoc_tag list"
  current_tag :: cur
  features :: pyval
  nl2br :: bool
  empty_element_tags :: "string list option"

text \<open>What a call leaves: its result and the state, or the exception and the state.\<close>

datatype 'a outcome = Ok 'a simpledoc | Raised error simpledoc

subsection \<open>The constructor\<close>

text \<open>
  \<^verbatim>\<open>len(self.features) == 0\<close>: \<^verbatim>\<open>None\<close> and the numbers have no \<^verbatim>\<open>len\<close>.
\<close>

fun len_is_0 :: "pyval \<Rightarrow> error + bool" where
  "len_is_0 (PStr s) = Inr (s = [])"
| "len_is_0 (PBytes b) = Inr (b = [])"
| "len_is_0 (PList xs) = Inr (xs = [])"
| "len_is_0 _ = Inl TypeError"

text \<open>
  \<^verbatim>\<open>SimpleDoc.__init__(self, *args, nl2br=False, **kwargs)\<close>. \<open>args\<close> is a tuple, so
  the assignment \<^verbatim>\<open>args[1] = self.features\<close> raises a TypeError. The call of the
  parser, \<^verbatim>\<open>BeautifulSoup(*args, **kwargs)\<close>, is outside the repository: the model
  takes the void element names of the tree builder it chooses as the parameter
  \<open>builder\<close> and lets the call return.
\<close>

definition SimpleDoc_init ::
  "string list option \<Rightarrow> pyval list \<Rightarrow> bool \<Rightarrow> dict \<Rightarrow> error + simpledoc" where
  "SimpleDoc_init builder args nl2br_arg kwargs =
     (if ''stag_end'' \<in> fst ` set kwargs then Inl AssertionError
      else
        let f = (if 1 < length args then args ! 1
                 else (case map_of kwargs ''features'' of Some v \<Rightarrow> v | None \<Rightarrow> PNone))
        in (case (if f = PNone then Inr True else len_is_0 f) of
              Inl e \<Rightarrow> Inl e
            | Inr dflt \<Rightarrow>
                let f' = (if dflt then PStr ''lxml'' else f)
                in if 1 < length args then Inl TypeError
                   else Inr \<lparr> heap = [BeautifulSoup args (AList.update ''features'' f' kwargs) []],
                              soup = 0,
                              tags = [],
                              current_tag = DocumentRoot,
                              features = f',
                              nl2br = nl2br_arg,
                              empty_element_tags = builder \<rparr>))"

subsection \<open>Appending to the tree\<close>

text \<open>
  A reference always names an object that exists: an address is only made by an
  allocation, at the end of its store. \<open>alloc\<close> makes a new tree object,
  \<open>bs4_append\<close> is bs4's \<^verbatim>\<open>parent.append(child)\<close> for a child that has no parent
  yet (every object the builder appends is made by the same call).
\<close>

definition alloc :: "bs4_node \<Rightarrow> simpledoc \<Rightarrow> addr \<times> simpledoc" where
  "alloc n d = (length (heap d), d\<lparr>heap := heap d @ [n]\<rparr>)"

definition bs4_append :: "addr \<Rightarrow> addr \<Rightarrow> simpledoc \<Rightarrow> simpledoc" where
  "bs4_append parent child d =
     d\<lparr>heap := (heap d)[parent := append_child child (heap d ! parent)]\<rparr>"

text \<open>\<^verbatim>\<open>soup.new_tag(name)\<close>: an element with no attributes, children or parent.\<close>

definition can_be_empty_element :: "simpledoc \<Rightarrow> string \<Rightarrow> bool" where
  "can_be_empty_element d tag_name =
     (case empty_element_tags d of None \<Rightarrow> True | Some names \<Rightarrow> tag_name \<in> set names)"

definition new_tag :: "string \<Rightarrow> simpledoc \<Rightarrow> addr \<times> simpledoc" where
  "new_tag tag_name d = alloc (Bs4Tag tag_name [] [] (can_be_empty_element d tag_name)) d"

text \<open>
  \<^verbatim>\<open>Tag._append\<close> and \<^verbatim>\<open>DocumentRoot._append\<close>, and \<^verbatim>\<open>x._append(child)\<close> for
  \<open>x\<close> either of them.
\<close>

definition Tag_append :: "addr \<Rightarrow> addr \<Rightarrow> simpledoc \<Rightarrow> simpledoc" where
  "Tag_append t child d = bs4_append (bs4_tag (tags d ! t)) child d"

definition DocumentRoot_append :: "addr \<Rightarrow> simpledoc \<Rightarrow> simpledoc" where
  "DocumentRoot_append child d = bs4_append (soup d) child d"

fun append_to :: "cur \<Rightarrow> addr \<Rightarrow> simpledoc \<Rightarrow> simpledoc" where
  "append_to DocumentRoot child d = DocumentRoot_append child d"
| "append_to (TagRef t) child d = Tag_append t child d"

text \<open>\<^verbatim>\<open>self.current_tag._append(n)\<close> for an object \<open>n\<close> made in the argument.\<close>

definition append_new :: "bs4_node \<Rightarrow> simpledoc \<Rightarrow> simpledoc" where
  "append_new n d = (let (a, d1) = alloc n d in append_to (current_tag d1) a d1)"

subsection \<open>Tag scopes\<close>

text \<open>
  \<^verbatim>\<open>Tag.__init__\<close>, \<^verbatim>\<open>Tag.__enter__\<close> and \<^verbatim>\<open>Tag.__exit__\<close>. The second argument
  of \<open>Tag_exit\<close> is the \<^verbatim>\<open>value\<close> the \<^verbatim>\<open>with\<close> statement passes: the exception in
  flight, or \<^verbatim>\<open>None\<close>. \<^verbatim>\<open>__exit__\<close> returns \<^verbatim>\<open>None\<close>, so an exception in flight
  goes on.
\<close>

definition Tag_init :: "string \<Rightarrow> dict \<Rightarrow> simpledoc \<Rightarrow> addr \<times> simpledoc" where
  "Tag_init tag_name a d =
     (let (b, d1) = new_tag tag_name d
      in (length (tags d1),
          d1\<lparr>tags := tags d1 @ [\<lparr>name = tag_name, attrs = a, bs4_tag = b, parent_tag = None\<rparr>]\<rparr>))"

definition Tag_enter :: "addr \<Rightarrow> simpledoc \<Rightarrow> simpledoc" where
  "Tag_enter t d =
     (let p = current_tag d;
          d1 = d\<lparr>tags := (tags d)[t := (tags d ! t)\<lparr>parent_tag := Some p\<rparr>]\<rparr>;
          d2 = d1\<lparr>current_tag := TagRef t\<rparr>
      in append_to p (bs4_tag (tags d2 ! t)) d2)"

definition Tag_exit :: "addr \<Rightarrow> error option \<Rightarrow> simpledoc \<Rightarrow> unit outcome" where
  "Tag_exit t exc d =
     (case exc of
        None \<Rightarrow>
          (let tg = tags d ! t;
               d1 = (if attrs tg \<noteq> []
                     then d\<lparr>heap := (heap d)[bs4_tag tg := update_attrs (attrs tg) (heap d ! bs4_tag tg)]\<rparr>
                     else d)
           in (case parent_tag tg of
                 None \<Rightarrow> Raised AttributeError d1
               | Some p \<Rightarrow> Ok () (d1\<lparr>current_tag := p\<rparr>)))
      | Some e \<Rightarrow> Ok () d)"

text \<open>\<^verbatim>\<open>SimpleDoc.tag\<close>: the attributes are worked out before the Tag object is made.\<close>

definition tag :: "string \<Rightarrow> arg list \<Rightarrow> dict \<Rightarrow> simpledoc \<Rightarrow> addr outcome" where
  "tag tag_name args kwargs d =
     (case attributes args kwargs of
        Inl e \<Rightarrow> Raised e d
      | Inr a \<Rightarrow> (let (t, d1) = Tag_init tag_name a d in Ok t d1))"

subsection \<open>Leaf operations\<close>

text \<open>
  \<^verbatim>\<open>SimpleDoc.stag\<close>. The element is made first, so it exists (unattached) when the
  attributes raise.
\<close>

definition stag :: "string \<Rightarrow> arg list \<Rightarrow> dict \<Rightarrow> simpledoc \<Rightarrow> unit outcome" where
  "stag tag_name args kwargs d =
     (let (b, d1) = new_tag tag_name d
      in (case (if args \<noteq> [] \<or> kwargs \<noteq> []
                then (case attributes args kwargs of
                        Inl e \<Rightarrow> Inl e
                      | Inr a \<Rightarrow> dict_to_attrs a)
                else Inr [])
          of Inl e \<Rightarrow> Raised e d1
           | Inr a \<Rightarrow>
               Ok () (append_to (current_tag d1) b
                 (d1\<lparr>heap := (heap d1)
                    [b := set_can_be_empty_element True (update_attrs a (heap d1 ! b))]\<rparr>))))"

text \<open>
  bs4's \<^verbatim>\<open>NavigableString(value)\<close>, a subclass of \<^verbatim>\<open>str\<close>: a \<^verbatim>\<open>str\<close> is taken
  as it is, anything else goes through \<^verbatim>\<open>str(value, 'utf-8')\<close>, which decodes
  \<^verbatim>\<open>bytes\<close> and raises a TypeError for every other value.
\<close>

fun new_NavigableString :: "pyval \<Rightarrow> error + string" where
  "new_NavigableString (PStr s) = Inr s"
| "new_NavigableString (PBytes b) = decode_utf8 b"
| "new_NavigableString _ = Inl TypeError"

text \<open>
  \<^verbatim>\<open>SimpleDoc.text\<close>. The call of \<^verbatim>\<open>html_escape\<close> is commented out in the source
  (line 181), so a value reaches \<^verbatim>\<open>NavigableString\<close>, or under \<^verbatim>\<open>nl2br\<close> the
  regular expression's \<^verbatim>\<open>split\<close> (a TypeError for everything but a \<^verbatim>\<open>str\<close>),
  unchecked. \<open>nl2br_loop\<close> is the loop over \<^verbatim>\<open>strgs[:-1]\<close> and the append of
  \<^verbatim>\<open>strgs[-1]\<close>; \<open>text_value\<close> is one turn of the loop over the arguments.
\<close>

fun nl2br_loop :: "string list \<Rightarrow> simpledoc \<Rightarrow> unit outcome" where
  "nl2br_loop [] d = Raised IndexError d"
| "nl2br_loop [s] d = Ok () (append_new (NavigableString s) d)"
| "nl2br_loop (s # s' # ss) d =
     (case stag ''br'' [] [] (append_new (NavigableString s) d) of
        Ok _ d1 \<Rightarrow> nl2br_loop (s' # ss) d1
      | Raised e d1 \<Rightarrow> Raised e d1)"

definition text_value :: "pyval \<Rightarrow> simpledoc \<Rightarrow> unit outcome" where
  "text_value strg d =
     (if nl2br d then
        (case strg of
           PStr s \<Rightarrow> nl2br_loop (newline_rgx_split s) d
         | _ \<Rightarrow> Raised TypeError d)
      else
        (case new_NavigableString strg of
           Inl e \<Rightarrow> Raised e d
         | Inr s \<Rightarrow> Ok () (append_new (NavigableString s) d)))"

fun text' :: "pyval list \<Rightarrow> simpledoc \<Rightarrow> unit outcome" where
  "text' [] d = Ok () d"
| "text' (strg # strgs) d =
     (case text_value strg d of
        Ok _ d1 \<Rightarrow> text' strgs d1
      | Raised e d1 \<Rightarrow> Raised e d1)"

text \<open>
  \<^verbatim>\<open>SimpleDoc.asis\<close>. The parser behind \<^verbatim>\<open>BeautifulSoup(strg, features=...)\<close> is
  outside the repository, so it is a parameter \<open>parse\<close> of the model: for the
  arguments of the call it gives the exception the call raises, or the objects it makes
  (their \<^verbatim>\<open>contents\<close> as indices into that list) and which of them are the
  children of the parsed document. bs4's \<^verbatim>\<open>append\<close> does not keep a parsed
  document inside another: it takes the children out and appends them one by one.
  \<open>shift\<close> moves the objects to where the heap ends.
\<close>

type_synonym parser = "pyval list \<Rightarrow> dict \<Rightarrow> error + (bs4_node list \<times> addr list)"

fun shift :: "nat \<Rightarrow> bs4_node \<Rightarrow> bs4_node" where
  "shift k (BeautifulSoup a kw cs) = BeautifulSoup a kw (map (\<lambda>c. k + c) cs)"
| "shift k (Bs4Tag n a cs f) = Bs4Tag n a (map (\<lambda>c. k + c) cs) f"
| "shift k n = n"

definition append_parsed :: "bs4_node list \<times> addr list \<Rightarrow> simpledoc \<Rightarrow> simpledoc" where
  "append_parsed p d =
     (let k = length (heap d);
          d1 = d\<lparr>heap := heap d @ map (shift k) (fst p)\<rparr>
      in fold (\<lambda>c. append_to (current_tag d1) (k + c)) (snd p) d1)"

fun asis :: "parser \<Rightarrow> pyval list \<Rightarrow> simpledoc \<Rightarrow> unit outcome" where
  "asis parse [] d = Ok () d"
| "asis parse (strg # strgs) d =
     (if strg = PNone then Raised TypeError d
      else (case parse [strg] [(''features'', features d)] of
              Inl e \<Rightarrow> Raised e d
            | Inr p \<Rightarrow> asis parse strgs (append_parsed p d)))"

text \<open>
  \<^verbatim>\<open>SimpleDoc.attr\<close>: \<^verbatim>\<open>self.current_tag.attrs\<close> is read before the arguments are
  looked at, and the \<^verbatim>\<open>DocumentRoot\<close> raises on every attribute it does not have.
\<close>

definition attr :: "arg list \<Rightarrow> dict \<Rightarrow> simpledoc \<Rightarrow> unit outcome" where
  "attr args kwargs d =
     (case current_tag d of
        DocumentRoot \<Rightarrow> Raised DocumentRootError d
      | TagRef t \<Rightarrow>
          (case attributes args kwargs of
             Inl e \<Rightarrow> Raised e d
           | Inr a \<Rightarrow>
               Ok () (d\<lparr>tags := (tags d)
                 [t := (tags d ! t)\<lparr>attrs := dict_update (attrs (tags d ! t)) a\<rparr>]\<rparr>)))"

text \<open>
  \<^verbatim>\<open>SimpleDoc.cdata\<close> for a \<^verbatim>\<open>str\<close>. \<open>cdata_section l i s\<close> is the text of the
  section made for the piece \<open>s\<close> at index \<open>i\<close> of \<open>l\<close> pieces.
\<close>

definition cdata_section :: "nat \<Rightarrow> nat \<Rightarrow> string \<Rightarrow> string" where
  "cdata_section l i s =
     (if i = 0 \<and> l = 1 then s
      else if i = 0 then s @ '']]''
      else if i = l - 1 then ''>'' @ s
      else ''>'' @ s @ '']]'')"

definition cdata_sections :: "string \<Rightarrow> string list" where
  "cdata_sections strg =
     (let strgs = split '']]>'' strg; l = length strgs
      in map (\<lambda>(i, s). cdata_section l i s) (enumerate 0 strgs))"

definition cdata :: "string \<Rightarrow> bool \<Rightarrow> simpledoc \<Rightarrow> unit outcome" where
  "cdata strg safe d =
     (if safe then Ok () (append_new (CData strg) d)
      else Ok () (fold (\<lambda>s. append_new (CData s)) (cdata_sections strg) d))"

subsection \<open>The class helpers\<close>

text \<open>
  A Python \<^verbatim>\<open>set\<close> is a list without repetitions. The order in which
  \<^verbatim>\<open>' '.join(classes_set)\<close> meets the elements is not fixed by the language, so it
  is a parameter \<open>ord\<close> of the model: the enumeration of a set.
  \<^verbatim>\<open>_get_classes\<close>: a \<^verbatim>\<open>str\<close> and \<^verbatim>\<open>bytes\<close> have a \<^verbatim>\<open>split\<close>, the other
  values raise an AttributeError. \<^verbatim>\<open>_set_classes\<close>: \<^verbatim>\<open>join\<close> raises a TypeError
  for an item that is not a \<^verbatim>\<open>str\<close>.
\<close>

definition get_classes :: "simpledoc \<Rightarrow> error + pyval list" where
  "get_classes d =
     (case current_tag d of
        DocumentRoot \<Rightarrow> Inl DocumentRootError
      | TagRef t \<Rightarrow>
          (case map_of (attrs (tags d ! t)) ''class'' of
             None \<Rightarrow> Inr []
           | Some (PStr s) \<Rightarrow> Inr (remdups (map PStr (split_whitespace str_whitespace [] s)))
           | Some (PBytes b) \<Rightarrow> Inr (remdups (map PBytes (split_whitespace bytes_whitespace [] b)))
           | Some _ \<Rightarrow> Inl AttributeError))"

fun str_items :: "pyval list \<Rightarrow> error + string list" where
  "str_items [] = Inr []"
| "str_items (PStr s # xs) = (case str_items xs of Inl e \<Rightarrow> Inl e | Inr ss \<Rightarrow> Inr (s # ss))"
| "str_items (_ # xs) = Inl TypeError"

definition set_attr :: "addr \<Rightarrow> string \<Rightarrow> pyval \<Rightarrow> simpledoc \<Rightarrow> simpledoc" where
  "set_attr t key v d =
     d\<lparr>tags := (tags d)[t := (tags d ! t)\<lparr>attrs := AList.update key v (attrs (tags d ! t))\<rparr>]\<rparr>"

definition del_attr :: "addr \<Rightarrow> string \<Rightarrow> simpledoc \<Rightarrow> simpledoc" where
  "del_attr t key d =
     d\<lparr>tags := (tags d)[t := (tags d ! t)\<lparr>attrs := AList.delete key (attrs (tags d ! t))\<rparr>]\<rparr>"

definition set_classes :: "(pyval list \<Rightarrow> pyval list) \<Rightarrow> pyval list \<Rightarrow> simpledoc \<Rightarrow> unit outcome" where
  "set_classes ord classes_set d =
     (if classes_set \<noteq> [] then
        (case str_items (ord classes_set) of
           Inl e \<Rightarrow> Raised e d
         | Inr items \<Rightarrow>
             (case current_tag d of
                DocumentRoot \<Rightarrow> Raised DocumentRootError d
              | TagRef t \<Rightarrow> Ok () (set_attr t ''class'' (PStr (join '' '' items)) d)))
      else
        (case current_tag d of
           DocumentRoot \<Rightarrow> Raised DocumentRootError d
         | TagRef t \<Rightarrow> Ok () (del_attr t ''class'' d)))"

definition add_class :: "(pyval list \<Rightarrow> pyval list) \<Rightarrow> string list \<Rightarrow> simpledoc \<Rightarrow> unit outcome" where
  "add_class ord classes d =
     (case get_classes d of
        Inl e \<Rightarrow> Raised e d
      | Inr cs \<Rightarrow> set_classes ord (List.union (map PStr classes) cs) d)"

definition discard_class :: "(pyval list \<Rightarrow> pyval list) \<Rightarrow> string list \<Rightarrow> simpledoc \<Rightarrow> unit outcome" where
  "discard_class ord classes d =
     (case get_classes d of
        Inl e \<Rightarrow> Raised e d
      | Inr cs \<Rightarrow> set_classes ord (filter (\<lambda>c. c \<notin> set (map PStr classes)) cs) d)"

definition toggle_class :: "(pyval list \<Rightarrow> pyval list) \<Rightarrow> string \<Rightarrow> bool \<Rightarrow> simpledoc \<Rightarrow> unit outcome" where
  "toggle_class ord elem active d =
     (case get_classes d of
        Inl e \<Rightarrow> Raised e d
      | Inr cs \<Rightarrow>
          set_classes ord (if active then List.insert (PStr elem) cs
                           else removeAll (PStr elem) cs) d)"

subsection \<open>Programs over the builder\<close>

text \<open>
  The statements a caller writes: \<open>With n args kwargs body\<close> is
  \<^verbatim>\<open>with doc.tag(n, *args, **kwargs): body\<close>, each scope opened by its own call of
  \<^verbatim>\<open>tag\<close>; the others are the calls of the builder's methods, and \<open>Throw e\<close> is
  any other statement that raises. \<open>ord\<close> and \<open>parse\<close> are the parameters of the
  class helpers and of \<open>asis\<close>. \<open>exec\<close> follows Python's \<^verbatim>\<open>with\<close>: the Tag
  object is made and entered, the body runs, and \<^verbatim>\<open>__exit__\<close> is called with the
  exception the body raised or with \<^verbatim>\<open>None\<close> (\<open>exit_with\<close>); as it returns
  \<^verbatim>\<open>None\<close>, the exception is raised again after it. \<open>Line\<close> is \<^verbatim>\<open>SimpleDoc.line\<close>, which is
  such a \<^verbatim>\<open>with\<close> around one call of \<^verbatim>\<open>text\<close>.
\<close>

datatype cmd =
    With string "arg list" dict "cmd list"
  | Text "pyval list"
  | Line string pyval "arg list" dict
  | Asis "pyval list"
  | Attr "arg list" dict
  | Stag string "arg list" dict
  | Cdata string bool
  | Add_class "string list"
  | Discard_class "string list"
  | Toggle_class string bool
  | Throw error

definition reraise :: "error \<Rightarrow> unit outcome \<Rightarrow> unit outcome" where
  "reraise e r = (case r of Ok _ d \<Rightarrow> Raised e d | Raised e' d \<Rightarrow> Raised e' d)"

definition exit_with :: "addr \<Rightarrow> unit outcome \<Rightarrow> unit outcome" where
  "exit_with t body =
     (case body of
        Ok _ d \<Rightarrow> Tag_exit t None d
      | Raised e d \<Rightarrow> reraise e (Tag_exit t (Some e) d))"

fun exec :: "(pyval list \<Rightarrow> pyval list) \<Rightarrow> parser \<Rightarrow> cmd \<Rightarrow> simpledoc \<Rightarrow> unit outcome"
  and run :: "(pyval list \<Rightarrow> pyval list) \<Rightarrow> parser \<Rightarrow> cmd list \<Rightarrow> simpledoc \<Rightarrow> unit outcome"
  where
  "exec ord parse (With tag_name args kwargs body) d =
     (case tag tag_name args kwargs d of
        Raised e d1 \<Rightarrow> Raised e d1
      | Ok t d1 \<Rightarrow> exit_with t (run ord parse body (Tag_enter t d1)))"
| "exec ord parse (Text strgs) d = text' strgs d"
| "exec ord parse (Line tag_name text_content args kwargs) d =
     (case tag tag_name args kwargs d of
        Raised e d1 \<Rightarrow> Raised e d1
      | Ok t d1 \<Rightarrow> exit_with t (text' [text_content] (Tag_enter t d1)))"
| "exec ord parse (Asis strgs) d = asis parse strgs d"
| "exec ord parse (Attr args kwargs) d = attr args kwargs d"
| "exec ord parse (Stag tag_name args kwargs) d = stag tag_name args kwargs d"
| "exec ord parse (Cdata strg safe) d = cdata strg safe d"
| "exec ord parse (Add_class classes) d = add_class ord classes d"
| "exec ord parse (Discard_class classes) d = discard_class ord classes d"
| "exec ord parse (Toggle_class elem active) d = toggle_class ord elem active d"
| "exec ord parse (Throw e) d = Raised e d"
| "run ord parse [] d = Ok () d"
| "run ord parse (c # cs) d =
     (case exec ord parse c d of
        Ok _ d1 \<Rightarrow> run ord parse cs d1
      | Raised e d1 \<Rightarrow> Raised e d1)"

subsection \<open>Reading the state\<close>

text \<open>
  The element that receives what \<^verbatim>\<open>self.current_tag._append\<close> appends, and the
  children of an object of the tree, as the objects themselves. \<open>wf\<close> holds of a
  state whose insertion point is a Tag object and an element (or the parsed document)
  that exist, with children that exist and are not the element itself.
\<close>

fun element_of :: "simpledoc \<Rightarrow> cur \<Rightarrow> addr" where
  "element_of d DocumentRoot = soup d"
| "element_of d (TagRef t) = bs4_tag (tags d ! t)"

definition insertion_node :: "simpledoc \<Rightarrow> addr" where
  "insertion_node d = element_of d (current_tag d)"

definition children :: "simpledoc \<Rightarrow> addr \<Rightarrow> bs4_node list" where
  "children d a = map (\<lambda>c. heap d ! c) (contents (heap d ! a))"

fun container :: "bs4_node \<Rightarrow> bool" where
  "container (BeautifulSoup _ _ _) = True"
| "container (Bs4Tag _ _ _ _) = True"
| "container _ = False"

fun allocated :: "simpledoc \<Rightarrow> cur \<Rightarrow> bool" where
  "allocated d DocumentRoot = True"
| "allocated d (TagRef t) = (t < length (tags d))"

definition wf :: "simpledoc \<Rightarrow> bool" where
  "wf d =
     (allocated d (current_tag d)
      \<and> insertion_node d < length (heap d)
      \<and> container (heap d ! insertion_node d)
      \<and> list_all (\<lambda>c. c < length (heap d) \<and> c \<noteq> insertion_node d)
           (contents (heap d ! insertion_node d)))"

text \<open>The children of the insertion point.\<close>

definition kids :: "simpledoc \<Rightarrow> bs4_node list" where
  "kids d = children d (insertion_node d)"

text \<open>The state an outcome leaves, and whether it is an exception.\<close>

fun state :: "'a outcome \<Rightarrow> simpledoc" where
  "state (Ok _ d) = d"
| "state (Raised _ d) = d"

fun raised :: "'a outcome \<Rightarrow> error option" where
  "raised (Ok _ _) = None"
| "raised (Raised e _) = Some e"

subsection \<open>Notions for the statements\<close>

text \<open>
  The keys the positional arguments give, and the attributes \<open>stag\<close> works out before
  it puts them on the element.
\<close>

fun positional_keys :: "arg list \<Rightarrow> string list" where
  "positional_keys [] = []"
| "positional_keys (Pair k v # args) = k # positional_keys args"
| "positional_keys (Val (PStr s) # args) = s # positional_keys args"
| "positional_keys (Val _ # args) = positional_keys args"

definition stag_attrs :: "arg list \<Rightarrow> dict \<Rightarrow> error + dict" where
  "stag_attrs args kwargs =
     (if args \<noteq> [] \<or> kwargs \<noteq> []
      then (case attributes args kwargs of Inl e \<Rightarrow> Inl e | Inr a \<Rightarrow> dict_to_attrs a)
      else Inr [])"

text \<open>
  The words of the specification for the newline-to-break mode: every segment but the
  last is a text node followed by a self-closing line break, and the last segment is a
  text node.
\<close>

definition line_break :: bs4_node where
  "line_break = Bs4Tag ''br'' [] [] True"

definition nl2br_spec :: "string list \<Rightarrow> bs4_node list" where
  "nl2br_spec segs =
     concat (map (\<lambda>s. [NavigableString s, line_break]) (butlast segs))
     @ [NavigableString (last segs)]"

text \<open>
  \<open>extends d d'\<close>: the Tag objects of \<open>d\<close> are still there in \<open>d'\<close>, with the
  \<open>parent_tag\<close> they had.
\<close>

definition extends :: "simpledoc \<Rightarrow> simpledoc \<Rightarrow> bool" where
  "extends d d' =
     (length (tags d) \<le> length (tags d')
      \<and> (\<forall>t < length (tags d). parent_tag (tags d' ! t) = parent_tag (tags d ! t)))"

text \<open>The attributes of an element of the tree, \<^verbatim>\<open>element.attrs\<close>, and their names.\<close>

fun attrs_of :: "bs4_node \<Rightarrow> dict" where
  "attrs_of (Bs4Tag n a cs f) = a"
| "attrs_of _ = []"

definition attr_names :: "bs4_node \<Rightarrow> string set" where
  "attr_names n = fst ` set (attrs_of n)"

text \<open>
  The attribute arguments of the calls of \<open>attr\<close> that stand directly in the body of a
  scope (not inside a nested scope), in order, and whether a statement is one of the
  class helpers.
\<close>

fun scope_args :: "cmd list \<Rightarrow> arg list" where
  "scope_args [] = []"
| "scope_args (Attr args kwargs # cs) = args @ scope_args cs"
| "scope_args (c # cs) = scope_args cs"

fun scope_kwargs :: "cmd list \<Rightarrow> dict" where
  "scope_kwargs [] = []"
| "scope_kwargs (Attr args kwargs # cs) = kwargs @ scope_kwargs cs"
| "scope_kwargs (c # cs) = scope_kwargs cs"

fun no_class_helper :: "cmd \<Rightarrow> bool" where
  "no_class_helper (Add_class classes) = False"
| "no_class_helper (Discard_class classes) = False"
| "no_class_helper (Toggle_class elem active) = False"
| "no_class_helper c = True"

text \<open>
  What a statement leaves alone. \<open>bare\<close> is an object of the tree without its
  children. \<open>ready d\<close>: the insertion point of \<open>d\<close> is a Tag object and an element
  that exist. \<open>grows d d'\<close>: from \<open>d\<close> to \<open>d'\<close> the objects of the tree other than the
  insertion point are as they were, the insertion point has at most got children, and
  the Tag objects still have their element and, but for the insertion point, their
  pending attributes.
\<close>

fun bare :: "bs4_node \<Rightarrow> bs4_node" where
  "bare (BeautifulSoup a kw cs) = BeautifulSoup a kw []"
| "bare (Bs4Tag n a cs f) = Bs4Tag n a [] f"
| "bare n = n"

definition ready :: "simpledoc \<Rightarrow> bool" where
  "ready d = (allocated d (current_tag d) \<and> insertion_node d < length (heap d))"

definition grows :: "simpledoc \<Rightarrow> simpledoc \<Rightarrow> bool" where
  "grows d d' =
     (soup d' = soup d
      \<and> length (heap d) \<le> length (heap d')
      \<and> length (tags d) \<le> length (tags d')
      \<and> (\<forall>a < length (heap d). a \<noteq> insertion_node d \<longrightarrow> heap d' ! a = heap d ! a)
      \<and> bare (heap d' ! insertion_node d) = bare (heap d ! insertion_node d)
      \<and> (\<forall>u < length (tags d). bs4_tag (tags d' ! u) = bs4_tag (tags d ! u))
      \<and> (\<forall>u < length (tags d). TagRef u \<noteq> current_tag d
            \<longrightarrow> attrs (tags d' ! u) = attrs (tags d ! u)))"

text \<open>
  The \<^verbatim>\<open>class\<close> attribute the class helpers read, \<^verbatim>\<open>self.current_tag.attrs['class']\<close>,
  its tokens, and the strings that \<^verbatim>\<open>split()\<close> gives back after a \<^verbatim>\<open>join\<close>: not
  empty, and without a byte that starts a whitespace character.
\<close>

fun pending_attrs :: "simpledoc \<Rightarrow> cur \<Rightarrow> dict" where
  "pending_attrs d DocumentRoot = []"
| "pending_attrs d (TagRef t) = attrs (tags d ! t)"

definition class_attr :: "simpledoc \<Rightarrow> pyval option" where
  "class_attr d = map_of (pending_attrs d (current_tag d)) ''class''"

fun tokens :: "pyval option \<Rightarrow> string set" where
  "tokens (Some (PStr s)) = set (split_whitespace str_whitespace [] s)"
| "tokens _ = {}"

definition plain :: "string \<Rightarrow> bool" where
  "plain t = (t \<noteq> [] \<and> (\<forall>c \<in> set t. \<forall>w \<in> set str_whitespace. hd w \<noteq> c))"

text \<open>
  The void elements of bs4's \<^verbatim>\<open>HTMLTreeBuilder\<close> (its \<^verbatim>\<open>empty_element_tags\<close>),
  which the tree builders for HTML share, the one for the default \<^verbatim>\<open>'lxml'\<close> among
  them.
\<close>

definition html_empty_element_tags :: "string list" where
  "html_empty_element_tags =
     [''area'', ''base'', ''br'', ''col'', ''embed'', ''hr'', ''img'', ''input'', ''keygen'',
      ''link'', ''menuitem'', ''meta'', ''param'', ''source'', ''track'', ''wbr'',
      ''basefont'', ''bgsound'', ''command'', ''frame'', ''image'', ''isindex'', ''nextid'',
      ''spacer'']"

text \<open>
  Two states for the examples: the builder that \<^verbatim>\<open>SimpleDoc()\<close> makes, and the one
  inside \<^verbatim>\<open>with tag('p', klass='news')\<close>. \<open>no_parser\<close> stands for the parser in the
  examples that do not call \<open>asis\<close>, where it is never asked.
\<close>

definition doc0 :: simpledoc where
  "doc0 = \<lparr> heap = [BeautifulSoup [] [(''features'', PStr ''lxml'')] []], soup = 0, tags = [],
            current_tag = DocumentRoot, features = PStr ''lxml'', nl2br = False,
            empty_element_tags = Some html_empty_element_tags \<rparr>"

definition doc_news :: simpledoc where
  "doc_news = \<lparr> heap = [BeautifulSoup [] [(''features'', PStr ''lxml'')] [1],
                        Bs4Tag ''p'' [] [] False],
                soup = 0,
                tags = [\<lparr>name = ''p'', attrs = [(''class'', PStr ''news'')], bs4_tag = 1,
                          parent_tag = Some DocumentRoot\<rparr>],
                current_tag = TagRef 0, features = PStr ''lxml'', nl2br = False,
                empty_element_tags = Some html_empty_element_tags \<rparr>"

definition no_parser :: parser where
  "no_parser args kwargs = Inl TypeError"

section \<open>Properties\<close>

subsection \<open>Attribute dictionaries\<close>

lemma init_doc0: "SimpleDoc_init (Some html_empty_element_tags) [] False [] = Inr doc0"
  by (simp add: SimpleDoc_init_def doc0_def Let_def)

lemma keys_update:
  "fst ` set (AList.update k v d) = insert k (fst ` set d)"
proof -
  have "set (map fst (AList.update k v d))
      = set (if k \<in> set (map fst d) then map fst d else map fst d @ [k])"
    by (simp only: update_keys)
  also have "\<dots> = insert k (set (map fst d))"
    by (cases "k \<in> set (map fst d)") (simp_all add: insert_absorb)
  finally show ?thesis by (simp only: set_map)
qed

lemma keys_dict_update:
  "fst ` set (dict_update d other) = fst ` set d \<union> fst ` set other"
  unfolding dict_update_def
proof (induction other arbitrary: d)
  case Nil then show ?case by simp
next
  case (Cons kv other)
  obtain k v where kv: "kv = (k, v)" by (cases kv)
  have "fold (\<lambda>(k, v). AList.update k v) (kv # other) d
      = fold (\<lambda>(k, v). AList.update k v) other (AList.update k v d)"
    by (simp add: kv)
  then have "fst ` set (fold (\<lambda>(k, v). AList.update k v) (kv # other) d)
      = insert k (fst ` set d) \<union> fst ` set other"
    by (simp only: Cons.IH keys_update)
  also have "\<dots> = fst ` set d \<union> fst ` set (kv # other)"
    by (simp add: kv)
  finally show ?case .
qed

lemma map_of_dict_update:
  "map_of (dict_update d other) = map_of d ++ map_of (rev other)"
  unfolding dict_update_def
proof (induction other arbitrary: d)
  case Nil then show ?case by simp
next
  case (Cons kv other)
  obtain k v where kv: "kv = (k, v)" by (cases kv)
  have 1: "map_of (AList.update k v d) = (map_of d)(k \<mapsto> v)"
    by (rule update_conv')
  have 2: "map_of (rev (kv # other)) = [k \<mapsto> v] ++ map_of (rev other)"
    by (simp add: kv)
  have 3: "map_of d ++ ([k \<mapsto> v] ++ map_of (rev other)) = (map_of d)(k \<mapsto> v) ++ map_of (rev other)"
    by (simp only: map_add_assoc map_add_upd map_add_empty)
  have "fold (\<lambda>(k, v). AList.update k v) (kv # other) d
      = fold (\<lambda>(k, v). AList.update k v) other (AList.update k v d)"
    by (simp add: kv)
  then show ?case using Cons.IH [of "AList.update k v d"] by (simp only: 1 2 3)
qed

lemma attributes_loop_bad:
  "Val v \<in> set args \<Longrightarrow> (\<forall>s. v \<noteq> PStr s) \<Longrightarrow> attributes_loop args lst = Inl ValueError"
  by (induction args lst rule: attributes_loop.induct) auto

lemma attributes_loop_keys:
  "attributes_loop args lst = Inr r \<Longrightarrow> fst ` set r = fst ` set lst \<union> set (positional_keys args)"
  by (induction args lst arbitrary: r rule: attributes_loop.induct) auto

lemma fst_klass: "fst (klass kv) = (if fst kv = ''klass'' then ''class'' else fst kv)"
  by (simp add: klass_def)

lemma klass_not_key: "''klass'' \<notin> fst ` set (map klass kwargs)"
  by (induction kwargs) (simp_all add: fst_klass)

lemma klass_class_key:
  "''klass'' \<in> fst ` set kwargs \<Longrightarrow> ''class'' \<in> fst ` set (map klass kwargs)"
  by (induction kwargs) (auto simp: fst_klass)

subsection \<open>Malformed positional attribute arguments\<close>

text \<open>
  C5, as the code has it. When some positional attribute argument of \<open>tag\<close> is neither
  a (key, value) tuple nor a \<^verbatim>\<open>str\<close>, the call raises a ValueError (the source's
  \<^verbatim>\<open>raise ValueError\<close>, not an AttributeError) and leaves the builder as it was:
  no Tag object and no element has been made, and the tree is untouched.
\<close>

theorem tag_rejects_bad_positional:
  assumes "Val v \<in> set args" and "\<forall>s. v \<noteq> PStr s"
  shows "tag tag_name args kwargs d = Raised ValueError d"
  using assms by (simp add: tag_def attributes_def attributes_loop_bad)

theorem tag_rejects_bad_positional_witness:
  "Val (PInt 5) \<in> set [Pair ''id'' (PStr ''a''), Val (PInt 5)] \<and> (\<forall>s. PInt 5 \<noteq> PStr s)
   \<and> tag ''div'' [Pair ''id'' (PStr ''a''), Val (PInt 5)] [(''klass'', PStr ''x'')] doc0
       = Raised ValueError doc0"
  using tag_rejects_bad_positional
    [of "PInt 5" "[Pair ''id'' (PStr ''a''), Val (PInt 5)]" "''div''" "[(''klass'', PStr ''x'')]" doc0]
  by simp

text \<open>
  C5 as the specification words it fails: \<^verbatim>\<open>tag('div', 5)\<close> raises a ValueError, which
  is not an AttributeError.
\<close>

theorem tag_bad_positional_not_AttributeError:
  "raised (tag ''div'' [Val (PInt 5)] [] doc0) = Some ValueError
   \<and> \<not> is_AttributeError ValueError"
  by (simp add: tag_def attributes_def is_AttributeError_def)

subsection \<open>The constructor's positional arguments\<close>

lemma len_is_0_error: "len_is_0 v = Inl e \<Longrightarrow> e = TypeError"
  by (cases v) auto

text \<open>
  C10, as the code has it. A call of the constructor with two or more positional
  arguments and no keyword \<^verbatim>\<open>stag_end\<close> raises a TypeError and makes no document.
  (With the keyword \<^verbatim>\<open>stag_end\<close> the assertion at the head of \<^verbatim>\<open>__init__\<close> fails
  first.)
\<close>

theorem init_two_positional_TypeError:
  assumes "1 < length args" and "''stag_end'' \<notin> fst ` set kwargs"
  shows "SimpleDoc_init builder args nl2br_arg kwargs = Inl TypeError"
  using assms
  by (auto simp: SimpleDoc_init_def Let_def split: sum.splits dest: len_is_0_error)

theorem init_two_positional_TypeError_witness:
  "1 < length [PStr ''<b></b>'', PStr ''html.parser'']
   \<and> ''stag_end'' \<notin> fst ` set [(''from_encoding'', PStr ''utf-8'')]
   \<and> SimpleDoc_init None [PStr ''<b></b>'', PStr ''html.parser''] True
        [(''from_encoding'', PStr ''utf-8'')] = Inl TypeError"
  using init_two_positional_TypeError
    [of "[PStr ''<b></b>'', PStr ''html.parser'']" "[(''from_encoding'', PStr ''utf-8'')]" None True]
  by simp

text \<open>
  C10 as the specification words it fails when the call also passes \<^verbatim>\<open>stag_end\<close>:
  the AssertionError comes first.
\<close>

theorem init_stag_end_AssertionError:
  "SimpleDoc_init None [PStr ''<b></b>'', PStr ''html.parser''] False [(''stag_end'', PStr ''>'')]
     = Inl AssertionError
   \<and> \<not> is_TypeError AssertionError"
  by (simp add: SimpleDoc_init_def is_TypeError_def)

subsection \<open>Appending to the insertion point\<close>

lemma insertion_node_cong:
  "current_tag d' = current_tag d \<Longrightarrow> tags d' = tags d \<Longrightarrow> soup d' = soup d
   \<Longrightarrow> insertion_node d' = insertion_node d"
  by (cases "current_tag d") (simp_all add: insertion_node_def)

lemma append_new_eq:
  "append_new n d =
     d\<lparr>heap := (heap d @ [n])[insertion_node d :=
                 append_child (length (heap d)) ((heap d @ [n]) ! insertion_node d)]\<rparr>"
  by (cases "current_tag d")
     (simp_all add: append_new_def alloc_def bs4_append_def insertion_node_def
        DocumentRoot_append_def Tag_append_def)

lemma append_new_frame [simp]:
  "current_tag (append_new n d) = current_tag d"
  "tags (append_new n d) = tags d"
  "soup (append_new n d) = soup d"
  "nl2br (append_new n d) = nl2br d"
  "features (append_new n d) = features d"
  "empty_element_tags (append_new n d) = empty_element_tags d"
  "length (heap (append_new n d)) = Suc (length (heap d))"
  by (simp_all add: append_new_eq)

lemma insertion_node_append_new [simp]:
  "insertion_node (append_new n d) = insertion_node d"
  by (rule insertion_node_cong) simp_all

lemma contents_append_child:
  "container x \<Longrightarrow> contents (append_child c x) = contents x @ [c]"
  by (cases x) simp_all

lemma container_append_child: "container (append_child c x) = container x"
  by (cases x) simp_all

lemma wf_append_new:
  assumes "wf d"
  shows "wf (append_new n d)" and "kids (append_new n d) = kids d @ [n]"
proof -
  let ?p = "insertion_node d"
  let ?h = "heap d"
  from assms have p: "?p < length ?h" and c: "container (?h ! ?p)"
    and cs: "\<forall>a \<in> set (contents (?h ! ?p)). a < length ?h \<and> a \<noteq> ?p"
    and t: "allocated d (current_tag d)"
    by (simp_all add: wf_def list_all_iff)
  have h': "heap (append_new n d) = (?h @ [n])[?p := append_child (length ?h) (?h ! ?p)]"
    using p by (simp add: append_new_eq nth_append)
  have at_p: "heap (append_new n d) ! ?p = append_child (length ?h) (?h ! ?p)"
    using p by (simp add: h')
  have old: "heap (append_new n d) ! a = ?h ! a" if "a < length ?h" "a \<noteq> ?p" for a
    using that by (simp add: h' nth_append)
  have new: "heap (append_new n d) ! length ?h = n"
    using p by (simp add: h')
  have cont: "contents (heap (append_new n d) ! ?p) = contents (?h ! ?p) @ [length ?h]"
    using c by (simp add: at_p contents_append_child)
  show "wf (append_new n d)"
  proof -
    have "allocated (append_new n d) (current_tag d)"
      using t by (cases "current_tag d") simp_all
    then show ?thesis
      using p c cs
      by (auto simp: wf_def list_all_iff at_p container_append_child contents_append_child)
  qed
  show "kids (append_new n d) = kids d @ [n]"
    using cs p by (simp add: kids_def children_def cont old new)
qed

lemma fold_append_new:
  "wf d \<Longrightarrow> wf (fold append_new ns d) \<and> kids (fold append_new ns d) = kids d @ ns
     \<and> current_tag (fold append_new ns d) = current_tag d
     \<and> tags (fold append_new ns d) = tags d
     \<and> nl2br (fold append_new ns d) = nl2br d"
proof (induction ns arbitrary: d)
  case Nil
  then show ?case by simp
next
  case (Cons n ns)
  from Cons.prems have w: "wf (append_new n d)" and k: "kids (append_new n d) = kids d @ [n]"
    by (rule wf_append_new)+
  from Cons.IH [OF w] show ?case by (simp add: k)
qed

lemma children_alloc:
  assumes "wf d"
  shows "children (d\<lparr>heap := heap d @ [n]\<rparr>) (insertion_node d) = kids d"
proof -
  from assms have p: "insertion_node d < length (heap d)"
    and cs: "\<forall>a \<in> set (contents (heap d ! insertion_node d)). a < length (heap d)"
    by (simp_all add: wf_def list_all_iff)
  then show ?thesis by (simp add: kids_def children_def nth_append)
qed

lemmas builder_defs =
  tag_def Tag_init_def Tag_enter_def Tag_exit_def new_tag_def alloc_def append_new_def
  bs4_append_def DocumentRoot_append_def Tag_append_def can_be_empty_element_def
  attributes_def dict_update_def dict_to_attrs_def klass_def stag_def text_value_def
  cdata_def attr_def reraise_def exit_with_def

lemma wf_doc0: "wf doc0"
  by (simp add: wf_def doc0_def insertion_node_def)

lemma kids_doc0: "kids doc0 = []"
  by (simp add: kids_def children_def doc0_def insertion_node_def)

subsection \<open>Self-closing tags\<close>

lemma stag_eq:
  "stag tag_name args kwargs d =
     (case stag_attrs args kwargs of
        Inl e \<Rightarrow> Raised e (snd (new_tag tag_name d))
      | Inr a \<Rightarrow> Ok () (append_new (Bs4Tag tag_name (dict_update [] a) [] True) d))"
proof (cases "stag_attrs args kwargs")
  case (Inl e)
  then show ?thesis
    by (simp add: stag_def stag_attrs_def new_tag_def alloc_def split: if_splits sum.splits)
next
  case (Inr a)
  have "append_to (current_tag d) (length (heap d))
          (d\<lparr>heap := heap d @ [Bs4Tag tag_name (dict_update [] a) [] True]\<rparr>)
        = append_new (Bs4Tag tag_name (dict_update [] a) [] True) d"
    by (simp add: append_new_def alloc_def)
  with Inr show ?thesis
    by (simp add: stag_def stag_attrs_def new_tag_def alloc_def split: if_splits sum.splits)
qed

lemma stag_br: "stag ''br'' [] [] d = Ok () (append_new (Bs4Tag ''br'' [] [] True) d)"
  by (simp add: stag_eq stag_attrs_def dict_update_def)

text \<open>
  C9. A call of \<open>stag\<close> never changes the insertion point, also when it raises. When
  the attributes are accepted, the new element, flagged \<^verbatim>\<open>can_be_empty_element\<close> and
  with no children, is the last child of the insertion point, and whatever is appended
  next (\<open>append_new\<close> is what \<open>text\<close>, \<open>cdata\<close> and \<open>stag\<close> append with;
  the text of a string outside the newline-to-break mode is spelled out) comes after
  it as its sibling: the element still has no children. When the attributes raise, the
  children of the insertion point are as before.
\<close>

theorem stag_keeps_insertion_point:
  assumes "wf d"
  shows "current_tag (state (stag tag_name args kwargs d)) = current_tag d
    \<and> insertion_node (state (stag tag_name args kwargs d)) = insertion_node d
    \<and> (case stag_attrs args kwargs of
          Inl e \<Rightarrow>
            raised (stag tag_name args kwargs d) = Some e
            \<and> children (state (stag tag_name args kwargs d)) (insertion_node d) = kids d
        | Inr a \<Rightarrow>
            raised (stag tag_name args kwargs d) = None
            \<and> kids (state (stag tag_name args kwargs d))
                = kids d @ [Bs4Tag tag_name (dict_update [] a) [] True]
            \<and> (\<forall>n. kids (append_new n (state (stag tag_name args kwargs d)))
                = kids d @ [Bs4Tag tag_name (dict_update [] a) [] True, n])
            \<and> (\<not> nl2br d \<longrightarrow>
                  kids (state (text' [PStr s] (state (stag tag_name args kwargs d))))
                    = kids d @ [Bs4Tag tag_name (dict_update [] a) [] True, NavigableString s]))"
proof -
  have i: "insertion_node (state (stag tag_name args kwargs d)) = insertion_node d"
    by (rule insertion_node_cong) (simp_all add: stag_eq new_tag_def alloc_def split: sum.splits)
  show ?thesis
  proof (cases "stag_attrs args kwargs")
    case (Inl e)
    then show ?thesis
      using children_alloc [OF assms] i
      by (simp add: stag_eq new_tag_def alloc_def)
  next
    case (Inr a)
    let ?e = "Bs4Tag tag_name (dict_update [] a) [] True"
    have s: "stag tag_name args kwargs d = Ok () (append_new ?e d)"
      by (simp add: stag_eq Inr)
    note w = wf_append_new [OF assms, of ?e]
    have "text' [PStr s] (append_new ?e d)
        = Ok () (append_new (NavigableString s) (append_new ?e d))" if "\<not> nl2br d"
      using that by (simp add: text_value_def)
    then show ?thesis using w wf_append_new [OF w(1)] by (simp add: s Inr)
  qed
qed

text \<open>The test \<^verbatim>\<open>test_stag\<close>, followed by a write.\<close>

theorem stag_keeps_insertion_point_witness:
  "wf doc0
   \<and> stag_attrs [] [(''src'', PStr ''/salmon.jpg'')] = Inr [(''src'', PStr ''/salmon.jpg'')]
   \<and> current_tag (state (stag ''img'' [] [(''src'', PStr ''/salmon.jpg'')] doc0)) = DocumentRoot
   \<and> kids (state (stag ''img'' [] [(''src'', PStr ''/salmon.jpg'')] doc0))
       = [Bs4Tag ''img'' [(''src'', PStr ''/salmon.jpg'')] [] True]
   \<and> \<not> nl2br doc0
   \<and> kids (state (text' [PStr ''after'']
             (state (stag ''img'' [] [(''src'', PStr ''/salmon.jpg'')] doc0))))
       = [Bs4Tag ''img'' [(''src'', PStr ''/salmon.jpg'')] [] True, NavigableString ''after'']"
proof -
  have a: "stag_attrs [] [(''src'', PStr ''/salmon.jpg'')] = Inr [(''src'', PStr ''/salmon.jpg'')]"
    by (simp add: stag_attrs_def attributes_def dict_update_def klass_def dict_to_attrs_def
        replace_def)
  have c: "current_tag doc0 = DocumentRoot" "\<not> nl2br doc0" by (simp_all add: doc0_def)
  show ?thesis
    using stag_keeps_insertion_point
        [OF wf_doc0, of "''img''" "[]" "[(''src'', PStr ''/salmon.jpg'')]" "''after''"]
      wf_doc0 kids_doc0 c
    by (simp add: a dict_update_def)
qed

subsection \<open>Text and the newline-to-break mode\<close>

lemma nl2br_loop_eq:
  "segs \<noteq> [] \<Longrightarrow> nl2br_loop segs d = Ok () (fold append_new (nl2br_spec segs) d)"
proof (induction segs d rule: nl2br_loop.induct)
  case (1 d)
  then show ?case by simp
next
  case (2 s d)
  show ?case by (simp add: nl2br_spec_def)
next
  case (3 s s' ss d)
  have "nl2br_spec (s # s' # ss) = NavigableString s # line_break # nl2br_spec (s' # ss)"
    by (simp add: nl2br_spec_def)
  then show ?case using 3 by (simp add: stag_br line_break_def)
qed

lemma cons_piece_not_Nil [simp]: "cons_piece c ps \<noteq> []"
  by (cases ps) simp_all

lemma newline_rgx_split_not_Nil [simp]: "newline_rgx_split s \<noteq> []"
  by (induction s rule: newline_rgx_split.induct) simp_all

lemma text_value_nl2br:
  assumes "nl2br d" 
  shows "text_value (PStr s) d = Ok () (fold append_new (nl2br_spec (newline_rgx_split s)) d)"
  using assms by (simp add: text_value_def nl2br_loop_eq)

lemma text_values_nl2br:
  assumes "wf d" and "nl2br d"
  shows "raised (text' (map PStr ss) d) = None
       \<and> kids (state (text' (map PStr ss) d))
           = kids d @ concat (map (\<lambda>s. nl2br_spec (newline_rgx_split s)) ss)
       \<and> current_tag (state (text' (map PStr ss) d)) = current_tag d"
  using assms
proof (induction ss arbitrary: d)
  case Nil
  then show ?case by simp
next
  case (Cons s ss)
  let ?d1 = "fold append_new (nl2br_spec (newline_rgx_split s)) d"
  have f: "wf ?d1" "kids ?d1 = kids d @ nl2br_spec (newline_rgx_split s)"
    "current_tag ?d1 = current_tag d" "nl2br ?d1"
    using fold_append_new [OF Cons.prems(1)] Cons.prems(2) by simp_all
  have "text' (map PStr (s # ss)) d = text' (map PStr ss) ?d1"
    using Cons.prems(2) by (simp add: text_value_nl2br)
  then show ?case using Cons.IH [OF f(1) f(4)] f(2,3) by simp
qed

text \<open>
  C4. In the newline-to-break mode, \<open>text\<close> of string values appends to the insertion
  point, for each value, the nodes the specification describes for the pieces that the
  split on \<^verbatim>\<open>\n\<close> or \<^verbatim>\<open>\r\n\<close> gives: a text node and a line break for every piece
  but the last, and a text node for the last, also when it is empty. For the three line
  feeds these are three line breaks, each after an empty text node, and the trailing
  empty text node.
\<close>

theorem text_nl2br_breaks:
  assumes "wf d" and "nl2br d"
  shows "raised (text' (map PStr ss) d) = None
       \<and> kids (state (text' (map PStr ss) d))
           = kids d @ concat (map (\<lambda>s. nl2br_spec (newline_rgx_split s)) ss)
       \<and> current_tag (state (text' (map PStr ss) d)) = current_tag d
       \<and> kids (state (text' [PStr [CHR 0x0A, CHR 0x0A, CHR 0x0A]] d))
           = kids d @ [NavigableString [], line_break, NavigableString [], line_break,
                       NavigableString [], line_break, NavigableString []]"
proof -
  have "nl2br_spec (newline_rgx_split [CHR 0x0A, CHR 0x0A, CHR 0x0A])
      = [NavigableString [], line_break, NavigableString [], line_break,
         NavigableString [], line_break, NavigableString []]"
    by (simp add: nl2br_spec_def)
  then show ?thesis
    using text_values_nl2br [OF assms, of ss] text_values_nl2br [OF assms, of "[[CHR 0x0A, CHR 0x0A, CHR 0x0A]]"]
    by simp
qed

text \<open>The two examples of the specification, from the empty builder.\<close>

theorem text_nl2br_breaks_witness:
  "wf (doc0\<lparr>nl2br := True\<rparr>) \<and> nl2br (doc0\<lparr>nl2br := True\<rparr>)
   \<and> kids (state (text' (map PStr [''pistachio'' @ [CHR 0x0A] @ ''ice cream'']) (doc0\<lparr>nl2br := True\<rparr>)))
       = [NavigableString ''pistachio'', line_break, NavigableString ''ice cream'']
   \<and> kids (state (text' [PStr [CHR 0x0A, CHR 0x0A, CHR 0x0A]] (doc0\<lparr>nl2br := True\<rparr>)))
       = [NavigableString [], line_break, NavigableString [], line_break,
          NavigableString [], line_break, NavigableString []]"
proof -
  have w: "wf (doc0\<lparr>nl2br := True\<rparr>)" "kids (doc0\<lparr>nl2br := True\<rparr>) = []"
    by (simp_all add: wf_def kids_def children_def doc0_def insertion_node_def)
  show ?thesis
    using text_nl2br_breaks [of "doc0\<lparr>nl2br := True\<rparr>" "[''pistachio'' @ [CHR 0x0A] @ ''ice cream'']"] w
    by (simp add: nl2br_spec_def)
qed

lemma html_escape_rejects:
  "html_escape PNone = Inl TypeError" "html_escape (PList xs) = Inl TypeError"
  "html_escape (PBytes b) = Inl TypeError"
  by simp_all

lemma not_number: "\<not> is_number v \<Longrightarrow> (\<forall>i. v \<noteq> PInt i) \<and> (\<forall>r. v \<noteq> PFloat r) \<and> (\<forall>b. v \<noteq> PBool b)"
  by (cases v) simp_all

text \<open>
  C6, as the code has it. \<open>text\<close> no longer calls \<open>html_escape\<close>: what a value that
  is not a \<^verbatim>\<open>str\<close> does is decided by \<^verbatim>\<open>NavigableString\<close> and, under
  \<^verbatim>\<open>nl2br\<close>, by the regular expression. Every value that is neither a \<^verbatim>\<open>str\<close>,
  nor a number, nor \<^verbatim>\<open>bytes\<close> raises a TypeError and leaves the builder as it was
  before that value: no text node is appended for it, and the values after it are not
  looked at. Under \<^verbatim>\<open>nl2br\<close> \<^verbatim>\<open>bytes\<close> do the same.
\<close>

theorem text_rejects:
  assumes "\<forall>s. v \<noteq> PStr s" and "\<not> is_number v" and "nl2br d \<or> (\<forall>b. v \<noteq> PBytes b)"
  shows "text' (v # vs) d = Raised TypeError d"
  using assms by (cases v) (auto simp: text_value_def)

theorem text_rejects_witness:
  "(\<forall>s. PNone \<noteq> PStr s) \<and> \<not> is_number PNone \<and> (\<forall>b. PNone \<noteq> PBytes b)
   \<and> text' [PNone, PStr ''later''] doc0 = Raised TypeError doc0
   \<and> kids doc0 = []"
  using text_rejects [of PNone doc0 "[PStr ''later'']"] kids_doc0 by simp

text \<open>
  C6 as the specification words it fails for \<^verbatim>\<open>bytes\<close>, which are neither a string
  nor a number: \<^verbatim>\<open>text(b'abc')\<close> raises nothing and appends the text node
  \<^verbatim>\<open>abc\<close>.
\<close>

theorem text_accepts_bytes:
  "raised (text' [PBytes ''abc''] doc0) = None
   \<and> kids (state (text' [PBytes ''abc''] doc0)) = [NavigableString ''abc'']"
  by (simp add: text_value_def decode_utf8_def between_def builder_defs doc0_def kids_def
      children_def insertion_node_def)

subsection \<open>CDATA sections\<close>

lemma split_not_Nil [simp]: "split sep s \<noteq> []"
  by (induction sep s rule: split.induct) simp_all

lemma hd_cons_piece: "ps \<noteq> [] \<Longrightarrow> hd (cons_piece c ps) = c # hd ps"
  by (cases ps) simp_all

lemma set_cons_piece: "ps \<noteq> [] \<Longrightarrow> set (cons_piece c ps) = insert (c # hd ps) (set (tl ps))"
  by (cases ps) simp_all

lemma join_cons_piece: "ps \<noteq> [] \<Longrightarrow> join sep (cons_piece c ps) = c # join sep ps"
proof (cases ps)
  case Nil
  then show "ps \<noteq> [] \<Longrightarrow> ?thesis" by simp
next
  case (Cons p ps')
  then show ?thesis by (cases ps') simp_all
qed

lemma join_Cons: "ps \<noteq> [] \<Longrightarrow> join sep (p # ps) = p @ sep @ join sep ps"
  by (cases ps) simp_all

lemma join_split: "join sep (split sep s) = s"
proof (induction sep s rule: split.induct)
  case (1 sep)
  show ?case by simp
next
  case (2 sep c cs)
  show ?case
  proof (cases "sep \<noteq> [] \<and> prefix sep (c # cs)")
    case True
    then obtain r where r: "c # cs = sep @ r" by (auto simp: prefix_def)
    then have d: "drop (length sep) (c # cs) = r" by simp
    have s: "split sep (c # cs) = [] # split sep r"
      using True d by (simp del: drop_Suc_Cons)
    have i: "join sep (split sep r) = r"
      using "2.IH"(1) [OF True] by (simp only: d)
    have "join sep ([] # split sep r) = sep @ join sep (split sep r)"
      by (simp add: join_Cons)
    then have "join sep (split sep (c # cs)) = sep @ r"
      by (simp only: s i)
    then show ?thesis by (simp only: r)
  next
    case False
    then have s: "split sep (c # cs) = cons_piece c (split sep cs)" by auto
    show ?thesis using "2.IH"(2) [OF False] by (simp only: s) (simp add: join_cons_piece)
  qed
qed

lemma hd_split_prefix: "prefix (hd (split sep s)) s"
  by (induction sep s rule: split.induct) (auto simp: hd_cons_piece)

lemma split_pieces:
  "sep \<noteq> [] \<Longrightarrow> p \<in> set (split sep s) \<Longrightarrow> \<not> sublist sep p"
proof (induction sep s arbitrary: p rule: split.induct)
  case (1 sep)
  then show ?case by simp
next
  case (2 sep c cs)
  note ne = \<open>sep \<noteq> []\<close>
  note mem = \<open>p \<in> set (split sep (c # cs))\<close>
  show ?case
  proof (cases "sep \<noteq> [] \<and> prefix sep (c # cs)")
    case True
    then have s: "split sep (c # cs) = [] # split sep (drop (length sep) (c # cs))" by auto
    from mem have "p = [] \<or> p \<in> set (split sep (drop (length sep) (c # cs)))"
      by (simp only: s) simp
    then show ?thesis using "2.IH"(1) [OF True ne] ne by auto
  next
    case False
    then have s: "split sep (c # cs) = cons_piece c (split sep cs)" by auto
    with mem have "p = c # hd (split sep cs) \<or> p \<in> set (tl (split sep cs))"
      by (simp only: s) (simp add: set_cons_piece)
    then show ?thesis
    proof
      assume p: "p = c # hd (split sep cs)"
      have "\<not> sublist sep (hd (split sep cs))"
        using "2.IH"(2) [OF False ne, of "hd (split sep cs)"] by simp
      moreover have "\<not> prefix sep (c # hd (split sep cs))"
      proof
        assume "prefix sep (c # hd (split sep cs))"
        moreover have "prefix (c # hd (split sep cs)) (c # cs)"
          by (simp add: hd_split_prefix)
        ultimately have "prefix sep (c # cs)" by (rule prefix_order.trans)
        with False ne show False by simp
      qed
      ultimately show ?thesis by (simp add: p sublist_Cons_right)
    next
      assume "p \<in> set (tl (split sep cs))"
      then have "p \<in> set (split sep cs)" by (rule list.set_sel(2) [rotated]) simp
      with "2.IH"(2) [OF False ne] show ?thesis by simp
    qed
  qed
qed

lemma no_terminator_append:
  "sublist '']]>'' (p @ '']]'') \<Longrightarrow> sublist '']]>'' p"
proof (induction p)
  case Nil
  then show ?case by (simp add: sublist_Cons_right)
next
  case (Cons c cs)
  from Cons.prems have "prefix '']]>'' (c # cs @ '']]'') \<or> sublist '']]>'' (cs @ '']]'')"
    by (simp add: sublist_Cons_right)
  then show ?case
  proof
    assume pre: "prefix '']]>'' (c # cs @ '']]'')"
    have "prefix '']]>'' (c # cs)"
    proof (cases cs)
      case Nil
      with pre show ?thesis by simp
    next
      case (Cons x xs)
      with pre show ?thesis by (cases xs) auto
    qed
    then show ?thesis by (rule prefix_imp_sublist)
  next
    assume "sublist '']]>'' (cs @ '']]'')"
    then have "sublist '']]>'' cs" by (rule Cons.IH)
    then show ?thesis by (simp only: sublist_Cons_right [of _ c cs] simp_thms)
  qed
qed

lemma no_terminator_Cons:
  "sublist '']]>'' (CHR ''>'' # p) \<Longrightarrow> sublist '']]>'' p"
  by (simp add: sublist_Cons_right)

lemma cdata_section_clean:
  "\<not> sublist '']]>'' p \<Longrightarrow> \<not> sublist '']]>'' (cdata_section l i p)"
  using no_terminator_append [of p] no_terminator_Cons [of p]
    no_terminator_Cons [of "p @ '']]''"]
  by (auto simp: cdata_section_def)

lemma cdata_sections_clean: "list_all (\<lambda>c. \<not> sublist '']]>'' c) (cdata_sections s)"
proof -
  have "\<not> sublist '']]>'' (cdata_section l i p)" if "(i, p) \<in> set (enumerate 0 (split '']]>'' s))" for l i p
  proof -
    from that have "p \<in> set (split '']]>'' s)" by (auto simp: in_set_enumerate_eq)
    then have "\<not> sublist '']]>'' p" by (rule split_pieces [rotated]) simp
    then show ?thesis by (rule cdata_section_clean)
  qed
  then show ?thesis by (auto simp: cdata_sections_def list_all_iff Let_def)
qed

lemma concat_later_sections:
  "qs \<noteq> [] \<Longrightarrow> 0 < i \<Longrightarrow>
     concat (map (\<lambda>(j, p). cdata_section (i + length qs) j p) (enumerate i qs))
       = ''>'' @ join '']]>'' qs"
proof (induction qs arbitrary: i)
  case Nil
  then show ?case by simp
next
  case (Cons q qs)
  show ?case
  proof (cases qs)
    case Nil
    with Cons.prems show ?thesis by (simp add: cdata_section_def)
  next
    case (Cons q' r)
    have "concat (map (\<lambda>(j, p). cdata_section (Suc i + length qs) j p) (enumerate (Suc i) qs))
       = ''>'' @ join '']]>'' qs"
      using Cons.IH [of "Suc i"] Cons by simp
    with Cons Cons.prems show ?thesis by (simp add: cdata_section_def)
  qed
qed

lemma concat_cdata_sections: "concat (cdata_sections s) = s"
proof -
  obtain p qs where ps: "split '']]>'' s = p # qs"
    using split_not_Nil [of "'']]>''" s] by (cases "split '']]>'' s") auto
  have "concat (map (\<lambda>(j, x). cdata_section (length (p # qs)) j x) (enumerate 0 (p # qs)))
      = join '']]>'' (p # qs)"
  proof (cases qs)
    case Nil
    then show ?thesis by (simp add: cdata_section_def)
  next
    case (Cons q r)
    have "concat (map (\<lambda>(j, x). cdata_section (1 + length qs) j x) (enumerate 1 qs))
       = ''>'' @ join '']]>'' qs"
      using concat_later_sections [of qs 1] Cons by simp
    with Cons show ?thesis by (simp add: cdata_section_def)
  qed
  then have "concat (cdata_sections s) = join '']]>'' (split '']]>'' s)"
    by (simp add: cdata_sections_def Let_def ps)
  then show ?thesis by (simp add: join_split)
qed

lemma fold_append_new_frame [simp]:
  "current_tag (fold append_new ns d) = current_tag d"
  "tags (fold append_new ns d) = tags d"
  "nl2br (fold append_new ns d) = nl2br d"
  by (induction ns arbitrary: d) simp_all

lemma fold_CData:
  "fold (\<lambda>s. append_new (CData s)) xs d = fold append_new (map CData xs) d"
  by (simp add: fold_map comp_def)

lemma cdata_frame [simp]:
  "current_tag (state (cdata strg safe d)) = current_tag d"
  "tags (state (cdata strg safe d)) = tags d"
  by (simp_all add: cdata_def fold_CData del: fold_map)

text \<open>
  C3. For every string \<open>s\<close>, the sections that \<^verbatim>\<open>cdata(s, safe=False)\<close> makes
  concatenate to \<open>s\<close> and none of them contains \<^verbatim>\<open>]]>\<close>; the call appends them
  as CDATA nodes, in order, to the insertion point.
\<close>

theorem cdata_round_trip:
  "concat (cdata_sections s) = s
   \<and> list_all (\<lambda>c. \<not> sublist '']]>'' c) (cdata_sections s)
   \<and> (wf d \<longrightarrow>
        raised (cdata s False d) = None
        \<and> kids (state (cdata s False d)) = kids d @ map CData (cdata_sections s)
        \<and> current_tag (state (cdata s False d)) = current_tag d)"
proof -
  have "kids (state (cdata s False d)) = kids d @ map CData (cdata_sections s)" if "wf d"
    using fold_append_new [OF that, of "map CData (cdata_sections s)"]
    by (simp add: cdata_def fold_CData del: fold_map)
  moreover have "raised (cdata s False d) = None" by (simp add: cdata_def)
  ultimately show ?thesis
    using concat_cdata_sections [of s] cdata_sections_clean [of s] cdata_frame(1) [of s False d]
    by blast
qed

text \<open>A string with two terminators back to back.\<close>

theorem cdata_round_trip_witness:
  "wf doc0
   \<and> cdata_sections ''a]]>]]>b'' = [''a]]'', ''>]]'', ''>b'']
   \<and> concat [''a]]'', ''>]]'', ''>b''] = ''a]]>]]>b''
   \<and> kids (state (cdata ''a]]>]]>b'' False doc0)) = [CData ''a]]'', CData ''>]]'', CData ''>b'']"
proof -
  have s: "cdata_sections ''a]]>]]>b'' = [''a]]'', ''>]]'', ''>b'']"
    by (simp add: cdata_sections_def cdata_section_def Let_def enumerate_eq_zip upt_rec)
  show ?thesis
    using cdata_round_trip [of "''a]]>]]>b''" doc0] wf_doc0 kids_doc0
    by (simp add: s)
qed

subsection \<open>Tag scopes\<close>

lemma extends_refl [simp]: "extends d d"
  by (simp add: extends_def)

lemma extends_trans: "extends d d' \<Longrightarrow> extends d' d'' \<Longrightarrow> extends d d''"
  by (auto simp: extends_def)

lemma extends_same_tags: "tags d' = tags d \<Longrightarrow> extends d d'"
  by (simp add: extends_def)

lemma stag_frame [simp]:
  "current_tag (state (stag tag_name args kwargs d)) = current_tag d"
  "tags (state (stag tag_name args kwargs d)) = tags d"
  "nl2br (state (stag tag_name args kwargs d)) = nl2br d"
  by (simp_all add: stag_eq new_tag_def alloc_def split: sum.splits)

lemma nl2br_loop_frame [simp]:
  "current_tag (state (nl2br_loop segs d)) = current_tag d"
  "tags (state (nl2br_loop segs d)) = tags d"
  "nl2br (state (nl2br_loop segs d)) = nl2br d"
  by (cases "segs = []"; simp add: nl2br_loop_eq)+

lemma text_value_frame [simp]:
  "current_tag (state (text_value v d)) = current_tag d"
  "tags (state (text_value v d)) = tags d"
  "nl2br (state (text_value v d)) = nl2br d"
  by (simp_all add: text_value_def split: pyval.splits sum.splits)

lemma text_frame':
  "current_tag (state (text' vs d)) = current_tag d \<and> tags (state (text' vs d)) = tags d"
proof (induction vs arbitrary: d)
  case Nil
  show ?case by simp
next
  case (Cons v vs)
  show ?case
    using Cons [of "state (text_value v d)"] text_value_frame(1,2) [of v d]
    by (cases "text_value v d") simp_all
qed

lemmas text_frame [simp] = text_frame' [THEN conjunct1] text_frame' [THEN conjunct2]

lemma append_to_frame [simp]:
  "current_tag (append_to p a d) = current_tag d"
  "tags (append_to p a d) = tags d"
  by (cases p; simp add: DocumentRoot_append_def Tag_append_def bs4_append_def)+

lemma fold_append_to_frame:
  "current_tag (fold (\<lambda>c. append_to p (f c)) cs d) = current_tag d
   \<and> tags (fold (\<lambda>c. append_to p (f c)) cs d) = tags d"
  by (induction cs arbitrary: d) simp_all

lemma append_parsed_frame [simp]:
  "current_tag (append_parsed p d) = current_tag d"
  "tags (append_parsed p d) = tags d"
  by (simp_all add: append_parsed_def Let_def fold_append_to_frame)

lemma asis_frame':
  "current_tag (state (asis parse vs d)) = current_tag d
   \<and> tags (state (asis parse vs d)) = tags d"
  by (induction parse vs d rule: asis.induct) (simp_all split: sum.splits)

lemmas asis_frame [simp] = asis_frame' [THEN conjunct1] asis_frame' [THEN conjunct2]

lemma parent_tag_update_attrs [simp]:
  "parent_tag (ts[i := (ts ! i)\<lparr>attrs := a\<rparr>] ! t) = parent_tag (ts ! t)"
  by (cases "i < length ts") (simp_all add: nth_list_update list_update_beyond)

lemma attr_frame:
  "current_tag (state (attr args kwargs d)) = current_tag d"
  "extends d (state (attr args kwargs d))"
  by (auto simp: attr_def extends_def split: cur.splits sum.splits)

lemma set_classes_frame:
  "current_tag (state (set_classes ord cs d)) = current_tag d"
  "extends d (state (set_classes ord cs d))"
  by (auto simp: set_classes_def set_attr_def del_attr_def extends_def
      split: cur.splits sum.splits)

lemma class_ops_frame:
  "current_tag (state (add_class ord classes d)) = current_tag d"
  "extends d (state (add_class ord classes d))"
  "current_tag (state (discard_class ord classes d)) = current_tag d"
  "extends d (state (discard_class ord classes d))"
  "current_tag (state (toggle_class ord elem active d)) = current_tag d"
  "extends d (state (toggle_class ord elem active d))"
  by (simp_all add: add_class_def discard_class_def toggle_class_def set_classes_frame
      split: sum.splits)

lemma tag_Raised: "tag tag_name args kwargs d = Raised e d1 \<Longrightarrow> d1 = d"
  by (auto simp: tag_def Tag_init_def new_tag_def alloc_def split: sum.splits)

lemma tag_Ok:
  assumes "tag tag_name args kwargs d = Ok t d1"
  shows "t = length (tags d)" and "current_tag d1 = current_tag d"
    and "length (tags d1) = Suc (length (tags d))"
    and "i < length (tags d) \<Longrightarrow> tags d1 ! i = tags d ! i"
    and "bs4_tag (tags d1 ! t) = length (heap d)"
    and "heap d1 = heap d @ [Bs4Tag tag_name [] [] (can_be_empty_element d tag_name)]"
    and "soup d1 = soup d" and "nl2br d1 = nl2br d"
  using assms
  by (auto simp: tag_def Tag_init_def new_tag_def alloc_def nth_append split: sum.splits)

lemma Tag_enter_frame:
  assumes "t < length (tags d)"
  shows "current_tag (Tag_enter t d) = TagRef t"
    and "parent_tag (tags (Tag_enter t d) ! t) = Some (current_tag d)"
    and "length (tags (Tag_enter t d)) = length (tags d)"
    and "i \<noteq> t \<Longrightarrow> tags (Tag_enter t d) ! i = tags d ! i"
    and "bs4_tag (tags (Tag_enter t d) ! t) = bs4_tag (tags d ! t)"
  using assms
  by (cases "current_tag d";
      simp add: Tag_enter_def Let_def DocumentRoot_append_def Tag_append_def bs4_append_def)+

lemma Tag_exit_None:
  assumes "parent_tag (tags d ! t) = Some p"
  shows "raised (Tag_exit t None d) = None"
    and "current_tag (state (Tag_exit t None d)) = p"
    and "tags (state (Tag_exit t None d)) = tags d"
  using assms by (simp_all add: Tag_exit_def Let_def)

lemma Tag_exit_tags: "tags (state (Tag_exit t exc d)) = tags d"
  by (simp add: Tag_exit_def Let_def split: option.splits)

lemma Tag_exit_Some: "Tag_exit t (Some e) d = Ok () d"
  by (simp add: Tag_exit_def)

lemma scope_frame:
  assumes tg: "tag tag_name args kwargs d = Ok t d1"
    and body: "extends (Tag_enter t d1) (state r)"
  shows "extends d (state (exit_with t r))"
    and "raised (exit_with t r) = None \<longrightarrow> current_tag (state (exit_with t r)) = current_tag d"
proof -
  note tk = tag_Ok [OF tg]
  have t: "t < length (tags d1)" using tk(1,3) by simp
  note en = Tag_enter_frame [OF t]
  have e1: "extends d (Tag_enter t d1)"
    using tk(1,3,4) en(3,4) by (simp add: extends_def)
  have tags_exit: "tags (state (exit_with t r)) = tags (state r)"
    by (cases r) (simp_all add: exit_with_def reraise_def Tag_exit_tags Tag_exit_Some)
  have "extends (state r) (state (exit_with t r))"
    using tags_exit by (rule extends_same_tags)
  with e1 body show "extends d (state (exit_with t r))"
    by (blast intro: extends_trans)
  show "raised (exit_with t r) = None \<longrightarrow> current_tag (state (exit_with t r)) = current_tag d"
  proof (cases r)
    case (Ok u d2)
    have "parent_tag (tags d2 ! t) = Some (current_tag d)"
      using body t en(2,3) tk(2) by (simp add: extends_def Ok)
    from Tag_exit_None [OF this] show ?thesis by (simp add: exit_with_def Ok)
  next
    case (Raised e d2)
    then show ?thesis by (simp add: exit_with_def reraise_def Tag_exit_Some)
  qed
qed

lemma exec_run_frame:
  "extends d (state (exec ord parse c d))
   \<and> (raised (exec ord parse c d) = None \<longrightarrow> current_tag (state (exec ord parse c d)) = current_tag d)"
  "extends d (state (run ord parse cs d))
   \<and> (raised (run ord parse cs d) = None \<longrightarrow> current_tag (state (run ord parse cs d)) = current_tag d)"
proof (induction ord parse c d and ord parse cs d rule: exec_run.induct)
  case (1 ord parse tag_name args kwargs body d)
  show ?case
  proof (cases "tag tag_name args kwargs d")
    case (Ok t d1)
    from "1.IH" [OF Ok] have "extends (Tag_enter t d1) (state (run ord parse body (Tag_enter t d1)))"
      by simp
    from scope_frame [OF Ok this] show ?thesis by (simp only: exec.simps Ok outcome.case)
  next
    case (Raised e d1)
    then show ?thesis using tag_Raised [OF Raised] by simp
  qed
next
  case (3 ord parse tag_name text_content args kwargs d)
  show ?case
  proof (cases "tag tag_name args kwargs d")
    case (Ok t d1)
    have "extends (Tag_enter t d1) (state (text' [text_content] (Tag_enter t d1)))"
      by (rule extends_same_tags) (rule text_frame(2))
    from scope_frame [OF Ok this] show ?thesis by (simp only: exec.simps Ok outcome.case)
  next
    case (Raised e d1)
    then show ?thesis using tag_Raised [OF Raised] by simp
  qed
next
  case (13 ord parse c cs d)
  show ?case
  proof (cases "exec ord parse c d")
    case (Ok u d1)
    with "13.IH"(1) have a: "extends d d1" "current_tag d1 = current_tag d" by simp_all
    from "13.IH"(2) [OF Ok] a show ?thesis
      by (auto simp: Ok intro: extends_trans)
  next
    case (Raised e d1)
    with "13.IH"(1) show ?thesis by simp
  qed
qed (simp_all add: extends_same_tags attr_frame class_ops_frame)










subsection \<open>What a statement leaves of the tree\<close>

lemma wf_ready: "wf d \<Longrightarrow> ready d"
  by (simp add: wf_def ready_def)

lemma bare_append_child [simp]: "bare (append_child c x) = bare x"
  by (cases x) simp_all

lemma bare_Bs4Tag: "bare x = Bs4Tag n a [] f \<Longrightarrow> \<exists>cs. x = Bs4Tag n a cs f"
  by (cases x) simp_all

lemma grows_refl [simp]: "grows d d"
  by (simp add: grows_def)

lemma grows_trans:
  assumes "grows d d1" and "insertion_node d1 = insertion_node d"
    and "current_tag d1 = current_tag d" and "grows d1 d2"
  shows "grows d d2"
  using assms unfolding grows_def by (auto simp: le_trans)

lemma ready_insertion_node:
  assumes "ready d" and "grows d d1" and "current_tag d1 = current_tag d"
  shows "insertion_node d1 = insertion_node d" and "ready d1"
proof -
  show i: "insertion_node d1 = insertion_node d"
  proof (cases "current_tag d")
    case DocumentRoot
    with assms show ?thesis by (simp add: insertion_node_def grows_def)
  next
    case (TagRef t)
    with assms(1) have "t < length (tags d)" by (simp add: ready_def)
    with assms(2) have "bs4_tag (tags d1 ! t) = bs4_tag (tags d ! t)" by (simp add: grows_def)
    with TagRef assms(3) show ?thesis by (simp add: insertion_node_def)
  qed
  have "allocated d1 (current_tag d)"
    using assms(1,2) by (cases "current_tag d") (auto simp: ready_def grows_def)
  with assms i show "ready d1" by (auto simp: ready_def grows_def)
qed

lemma grows_step:
  assumes "ready d" and "grows d d1" and "current_tag d1 = current_tag d" and "grows d1 d2"
  shows "grows d d2"
  using grows_trans [OF assms(2) ready_insertion_node(1) [OF assms(1,2,3)] assms(3,4)] .

lemma grows_append_new:
  assumes "ready d"
  shows "grows d (append_new n d)"
proof -
  from assms have p: "insertion_node d < length (heap d)" by (simp add: ready_def)
  then show ?thesis
    by (simp add: grows_def append_new_eq nth_append)
qed

lemma ready_append_new: "ready d \<Longrightarrow> ready (append_new n d)"
  using ready_insertion_node(2) [OF _ grows_append_new] by simp

lemma grows_fold_append_new: "ready d \<Longrightarrow> grows d (fold append_new ns d)"
proof (induction ns arbitrary: d)
  case Nil
  show ?case by simp
next
  case (Cons n ns)
  have "grows d (fold append_new ns (append_new n d))"
    using Cons.prems
  proof (rule grows_step)
    show "grows d (append_new n d)" by (rule grows_append_new) (rule Cons.prems)
    show "current_tag (append_new n d) = current_tag d" by simp
    show "grows (append_new n d) (fold append_new ns (append_new n d))"
      by (rule Cons.IH) (rule ready_append_new, rule Cons.prems)
  qed
  then show ?case by simp
qed

lemma grows_alloc: "ready d \<Longrightarrow> grows d (d\<lparr>heap := heap d @ [n]\<rparr>)"
  by (simp add: grows_def ready_def nth_append insertion_node_def)

lemma grows_stag: "ready d \<Longrightarrow> grows d (state (stag tag_name args kwargs d))"
  by (simp add: stag_eq new_tag_def alloc_def grows_alloc grows_append_new split: sum.splits)

lemma grows_cdata: "ready d \<Longrightarrow> grows d (state (cdata strg safe d))"
  by (simp add: cdata_def fold_CData grows_fold_append_new grows_append_new del: fold_map)

lemma grows_nl2br_loop: "ready d \<Longrightarrow> grows d (state (nl2br_loop segs d))"
  by (cases "segs = []") (simp_all add: nl2br_loop_eq grows_fold_append_new)

lemma grows_text_value: "ready d \<Longrightarrow> grows d (state (text_value v d))"
  by (simp add: text_value_def grows_nl2br_loop grows_append_new split: pyval.splits sum.splits)

lemma grows_text: "ready d \<Longrightarrow> grows d (state (text' vs d))"
proof (induction vs arbitrary: d)
  case Nil
  show ?case by simp
next
  case (Cons v vs)
  show ?case
  proof (cases "text_value v d")
    case (Ok u d1)
    have g: "grows d d1" using grows_text_value [OF Cons.prems, of v] by (simp add: Ok)
    have c: "current_tag d1 = current_tag d" using text_value_frame(1) [of v d] by (simp add: Ok)
    have "grows d (state (text' vs d1))"
      using Cons.prems g c
    proof (rule grows_step)
      show "grows d1 (state (text' vs d1))"
        by (rule Cons.IH) (rule ready_insertion_node(2) [OF Cons.prems g c])
    qed
    then show ?thesis by (simp add: Ok)
  next
    case (Raised e d1)
    then show ?thesis using grows_text_value [OF Cons.prems, of v] by simp
  qed
qed

lemma append_to_eq:
  "append_to (current_tag d) a d
     = d\<lparr>heap := (heap d)[insertion_node d := append_child a (heap d ! insertion_node d)]\<rparr>"
  by (cases "current_tag d")
     (simp_all add: insertion_node_def DocumentRoot_append_def Tag_append_def bs4_append_def)

lemma grows_append_to: "ready d \<Longrightarrow> grows d (append_to (current_tag d) a d)"
  by (simp add: append_to_eq grows_def ready_def)

lemma grows_fold_append_to:
  "ready d \<Longrightarrow> grows d (fold (\<lambda>c. append_to (current_tag d) (f c)) cs d)"
proof (induction cs arbitrary: d)
  case Nil
  show ?case by simp
next
  case (Cons c cs)
  let ?d1 = "append_to (current_tag d) (f c) d"
  have g: "grows d ?d1" by (rule grows_append_to) (rule Cons.prems)
  have c: "current_tag ?d1 = current_tag d" by simp
  have r: "ready ?d1" by (rule ready_insertion_node(2) [OF Cons.prems g c])
  have "grows d (fold (\<lambda>c. append_to (current_tag ?d1) (f c)) cs ?d1)"
    using Cons.prems g c by (rule grows_step) (rule Cons.IH [OF r])
  then show ?case by (simp only: c fold_simps)
qed

lemma grows_extend: "ready d \<Longrightarrow> grows d (d\<lparr>heap := heap d @ ns\<rparr>)"
  by (simp add: grows_def ready_def nth_append insertion_node_def)

lemma grows_append_parsed: "ready d \<Longrightarrow> grows d (append_parsed q d)"
proof -
  assume r: "ready d"
  let ?d1 = "d\<lparr>heap := heap d @ map (shift (length (heap d))) (fst q)\<rparr>"
  have g: "grows d ?d1" by (rule grows_extend) (rule r)
  have c: "current_tag ?d1 = current_tag d" by simp
  have r1: "ready ?d1" by (rule ready_insertion_node(2) [OF r g c])
  have "grows d (fold (\<lambda>c. append_to (current_tag ?d1) (length (heap d) + c)) (snd q) ?d1)"
    using r g c by (rule grows_step) (rule grows_fold_append_to [OF r1])
  then show ?thesis by (simp add: append_parsed_def Let_def)
qed

lemma grows_asis: "ready d \<Longrightarrow> grows d (state (asis parse vs d))"
proof (induction parse vs d rule: asis.induct)
  case (1 parse d)
  show ?case by simp
next
  case (2 parse strg strgs d)
  show ?case
  proof (cases "strg = PNone")
    case True
    then show ?thesis by simp
  next
    case False
    show ?thesis
    proof (cases "parse [strg] [(''features'', features d)]")
      case (Inl e)
      with False show ?thesis by simp
    next
      case (Inr q)
      have g: "grows d (append_parsed q d)" by (rule grows_append_parsed) (rule "2.prems")
      have c: "current_tag (append_parsed q d) = current_tag d" by simp
      have r: "ready (append_parsed q d)" by (rule ready_insertion_node(2) [OF "2.prems" g c])
      have "grows d (state (asis parse strgs (append_parsed q d)))"
        using "2.prems" g c by (rule grows_step) (rule "2.IH" [OF False Inr r])
      with False Inr show ?thesis by simp
    qed
  qed
qed

lemma tags_update_attrs [simp]:
  "bs4_tag (ts[i := (ts ! i)\<lparr>attrs := a\<rparr>] ! u) = bs4_tag (ts ! u)"
  "u \<noteq> i \<Longrightarrow> attrs (ts[i := (ts ! i)\<lparr>attrs := a\<rparr>] ! u) = attrs (ts ! u)"
  by (cases "i < length ts"; simp add: nth_list_update list_update_beyond)+

lemma grows_attr: "grows d (state (attr args kwargs d))"
  by (auto simp: attr_def grows_def split: cur.splits sum.splits)

lemma grows_set_classes: "grows d (state (set_classes ord cs d))"
  by (auto simp: set_classes_def set_attr_def del_attr_def grows_def
      split: cur.splits sum.splits)

lemma grows_class_ops:
  "grows d (state (add_class ord classes d))"
  "grows d (state (discard_class ord classes d))"
  "grows d (state (toggle_class ord elem active d))"
  by (simp_all add: add_class_def discard_class_def toggle_class_def grows_set_classes
      split: sum.splits)

lemma Tag_enter_scope:
  assumes tg: "tag tag_name args kwargs d = Ok t d1" and r: "ready d"
  shows "heap (Tag_enter t d1)
           = (heap d @ [Bs4Tag tag_name [] [] (can_be_empty_element d tag_name)])
               [insertion_node d := append_child (length (heap d)) (heap d ! insertion_node d)]"
    and "soup (Tag_enter t d1) = soup d"
    and "insertion_node (Tag_enter t d1) = length (heap d)"
    and "ready (Tag_enter t d1)"
    and "attributes args kwargs = Inr (attrs (tags (Tag_enter t d1) ! t))"
proof -
  note tk = tag_Ok [OF tg]
  have t: "t < length (tags d1)" using tk(1,3) by simp
  note en = Tag_enter_frame [OF t]
  from r have a: "allocated d (current_tag d)" and p: "insertion_node d < length (heap d)"
    by (simp_all add: ready_def)
  show h: "heap (Tag_enter t d1)
           = (heap d @ [Bs4Tag tag_name [] [] (can_be_empty_element d tag_name)])
               [insertion_node d := append_child (length (heap d)) (heap d ! insertion_node d)]"
  proof (cases "current_tag d")
    case DocumentRoot
    then show ?thesis
      using tk p
      by (simp add: Tag_enter_def Let_def DocumentRoot_append_def bs4_append_def
          insertion_node_def nth_append)
  next
    case (TagRef t')
    with a have "t' < length (tags d)" by simp
    with tk have "t' \<noteq> t" "tags d1 ! t' = tags d ! t'" by simp_all
    with TagRef show ?thesis
      using tk p
      by (simp add: Tag_enter_def Let_def Tag_append_def bs4_append_def insertion_node_def
          nth_append)
  qed
  show "soup (Tag_enter t d1) = soup d"
    using tk(7)
    by (cases "current_tag d1")
       (simp_all add: Tag_enter_def Let_def DocumentRoot_append_def Tag_append_def bs4_append_def)
  show i: "insertion_node (Tag_enter t d1) = length (heap d)"
    using en(1,5) tk(5) by (simp add: insertion_node_def)
  show "ready (Tag_enter t d1)"
    using en(1,3) t by (simp add: ready_def i h)
  have "attributes args kwargs = Inr (attrs (tags d1 ! t))"
    using tg by (auto simp: tag_def Tag_init_def new_tag_def alloc_def split: sum.splits)
  moreover have "attrs (tags (Tag_enter t d1) ! t) = attrs (tags d1 ! t)"
    using t
    by (cases "current_tag d1")
       (simp_all add: Tag_enter_def Let_def DocumentRoot_append_def Tag_append_def bs4_append_def)
  ultimately show "attributes args kwargs = Inr (attrs (tags (Tag_enter t d1) ! t))" by simp
qed

lemma exit_with_state:
  "tags (state (exit_with t r)) = tags (state r)"
  "soup (state (exit_with t r)) = soup (state r)"
  "length (heap (state (exit_with t r))) = length (heap (state r))"
  "a \<noteq> bs4_tag (tags (state r) ! t) \<Longrightarrow> heap (state (exit_with t r)) ! a = heap (state r) ! a"
  by (cases r; simp add: exit_with_def reraise_def Tag_exit_def Let_def split: option.splits)+

lemma scope_grows:
  assumes tg: "tag tag_name args kwargs d = Ok t d1" and r: "ready d"
    and body: "grows (Tag_enter t d1) (state r')"
  shows "grows d (state (exit_with t r'))"
    and "\<forall>u < length (tags d). attrs (tags (state (exit_with t r')) ! u) = attrs (tags d ! u)"
proof -
  let ?s2 = "Tag_enter t d1"
  let ?s3 = "state r'"
  let ?f = "state (exit_with t r')"
  let ?p = "insertion_node d"
  let ?b = "length (heap d)"
  note tk = tag_Ok [OF tg]
  have t: "t < length (tags d1)" using tk(1,3) by simp
  note en = Tag_enter_frame [OF t]
  note sc = Tag_enter_scope [OF tg r]
  from r have p: "?p < ?b" by (simp add: ready_def)
  have l2: "length (heap ?s2) = Suc ?b" by (simp add: sc(1))
  have old2: "heap ?s2 ! a = heap d ! a" if "a < ?b" "a \<noteq> ?p" for a
    using that by (simp add: sc(1) nth_append)
  have p2: "heap ?s2 ! ?p = append_child ?b (heap d ! ?p)"
    using p by (simp add: sc(1))
  from body have b3: "bs4_tag (tags ?s3 ! t) = ?b"
    using t en(3,5) tk(5) by (simp add: grows_def)
  from body have l3: "length (heap ?s2) \<le> length (heap ?s3)"
    and lt3: "length (tags ?s2) \<le> length (tags ?s3)"
    and s3: "soup ?s3 = soup ?s2"
    by (simp_all add: grows_def)
  have old3: "heap ?s3 ! a = heap ?s2 ! a" if "a < ?b" for a
    using body that l2 by (simp add: grows_def sc(3))
  have oldf: "heap ?f ! a = heap ?s3 ! a" if "a < ?b" for a
    using that by (simp add: exit_with_state(4) b3)
  have tags3: "bs4_tag (tags ?s3 ! u) = bs4_tag (tags d ! u)
             \<and> attrs (tags ?s3 ! u) = attrs (tags d ! u)" if "u < length (tags d)" for u
  proof -
    from that have u: "u < length (tags ?s2)" "u \<noteq> t" using tk(1,3) en(3) by simp_all
    then have "tags ?s2 ! u = tags d ! u" using en(4) [of u] tk(4) [OF that] by simp
    moreover have "bs4_tag (tags ?s3 ! u) = bs4_tag (tags ?s2 ! u)"
      using body u(1) by (simp add: grows_def)
    moreover have "attrs (tags ?s3 ! u) = attrs (tags ?s2 ! u)"
      using body u by (simp add: grows_def en(1))
    ultimately show ?thesis by simp
  qed
  show "\<forall>u < length (tags d). attrs (tags ?f ! u) = attrs (tags d ! u)"
    using tags3 by (simp add: exit_with_state(1))
  have 1: "soup ?f = soup d" by (simp add: exit_with_state(2) s3 sc(2))
  have 2: "?b \<le> length (heap ?f)" using l2 l3 by (simp add: exit_with_state(3))
  have 3: "length (tags d) \<le> length (tags ?f)"
    using lt3 en(3) tk(3) by (simp add: exit_with_state(1))
  have 4: "\<forall>a < ?b. a \<noteq> ?p \<longrightarrow> heap ?f ! a = heap d ! a"
    by (simp add: oldf old3 old2)
  have 5: "bare (heap ?f ! ?p) = bare (heap d ! ?p)"
    using p by (simp add: oldf old3 p2)
  have 6: "\<forall>u < length (tags d). bs4_tag (tags ?f ! u) = bs4_tag (tags d ! u)"
    using tags3 by (simp add: exit_with_state(1))
  have 7: "\<forall>u < length (tags d). TagRef u \<noteq> current_tag d \<longrightarrow> attrs (tags ?f ! u) = attrs (tags d ! u)"
    using tags3 by (simp add: exit_with_state(1))
  from 1 2 3 4 5 6 7 show "grows d ?f" unfolding grows_def by blast
qed

lemma exec_run_grows:
  "ready d \<Longrightarrow> grows d (state (exec ord parse c d))"
  "ready d \<Longrightarrow> grows d (state (run ord parse cs d))"
proof (induction ord parse c d and ord parse cs d rule: exec_run.induct)
  case (1 ord parse tag_name args kwargs body d)
  show ?case
  proof (cases "tag tag_name args kwargs d")
    case (Ok t d1)
    have "grows (Tag_enter t d1) (state (run ord parse body (Tag_enter t d1)))"
      by (rule "1.IH" [OF Ok]) (rule Tag_enter_scope(4) [OF Ok "1.prems"])
    from scope_grows(1) [OF Ok "1.prems" this] show ?thesis
      by (simp only: exec.simps Ok outcome.case)
  next
    case (Raised e d1)
    then show ?thesis using tag_Raised [OF Raised] by simp
  qed
next
  case (3 ord parse tag_name text_content args kwargs d)
  show ?case
  proof (cases "tag tag_name args kwargs d")
    case (Ok t d1)
    have "grows (Tag_enter t d1) (state (text' [text_content] (Tag_enter t d1)))"
      by (rule grows_text) (rule Tag_enter_scope(4) [OF Ok "3.prems"])
    from scope_grows(1) [OF Ok "3.prems" this] show ?thesis
      by (simp only: exec.simps Ok outcome.case)
  next
    case (Raised e d1)
    then show ?thesis using tag_Raised [OF Raised] by simp
  qed
next
  case (13 ord parse c cs d)
  show ?case
  proof (cases "exec ord parse c d")
    case (Ok u d1)
    have g: "grows d d1" using "13.IH"(1) [OF "13.prems"] by (simp add: Ok)
    have c: "current_tag d1 = current_tag d"
      using exec_run_frame(1) [of d ord parse c] by (simp add: Ok)
    have r1: "ready d1" by (rule ready_insertion_node(2) [OF "13.prems" g c])
    have "grows d (state (run ord parse cs d1))"
      using "13.prems" g c by (rule grows_step) (rule "13.IH"(2) [OF Ok r1])
    then show ?thesis by (simp add: Ok)
  next
    case (Raised e d1)
    then show ?thesis using "13.IH"(1) [OF "13.prems"] by simp
  qed
qed (simp_all add: grows_text grows_asis grows_attr grows_stag grows_cdata grows_class_ops)

subsection \<open>The alias \<^verbatim>\<open>klass\<close>\<close>

lemma positional_keys_append:
  "positional_keys (xs @ ys) = positional_keys xs @ positional_keys ys"
  by (induction xs rule: positional_keys.induct) simp_all

lemma attributes_keys:
  assumes "attributes args kwargs = Inr r"
  shows "fst ` set r = set (positional_keys args) \<union> fst ` set (map klass kwargs)"
proof -
  from assms obtain lst where lst: "attributes_loop args [] = Inr lst"
    and r: "r = dict_update (dict_update [] lst) (map klass kwargs)"
    by (auto simp: attributes_def split: sum.splits)
  show ?thesis
    using attributes_loop_keys [OF lst] by (simp add: r keys_dict_update)
qed

lemma dict_to_attrs_loop_keys:
  "dict_to_attrs_loop dct acc = Inr r \<Longrightarrow> fst ` set r = fst ` set acc \<union> fst ` set dct"
proof (induction dct acc arbitrary: r rule: dict_to_attrs_loop.induct)
  case (1 acc)
  then show ?case by simp
next
  case (2 key v dct acc)
  show ?case
  proof (cases "v = PNone")
    case True
    with "2.prems" have "dict_to_attrs_loop dct (AList.update key PNone acc) = Inr r" by simp
    from "2.IH"(1) [OF True this] show ?thesis by (simp add: keys_update)
  next
    case False
    with "2.prems" obtain s where e: "attr_escape v = Inr s"
      and l: "dict_to_attrs_loop dct (AList.update key (PStr s) acc) = Inr r"
      by (auto split: sum.splits)
    from "2.IH"(2) [OF False e l] show ?thesis by (simp add: keys_update)
  qed
qed

lemma stag_attrs_keys:
  assumes "stag_attrs args kwargs = Inr a"
  shows "fst ` set a = set (positional_keys args) \<union> fst ` set (map klass kwargs)"
proof (cases "args \<noteq> [] \<or> kwargs \<noteq> []")
  case True
  with assms obtain r where r: "attributes args kwargs = Inr r" and a: "dict_to_attrs r = Inr a"
    by (auto simp: stag_attrs_def split: sum.splits)
  from a have "fst ` set a = fst ` set r"
    using dict_to_attrs_loop_keys [of r "[]" a] by (simp add: dict_to_attrs_def)
  with attributes_keys [OF r] show ?thesis by simp
next
  case False
  with assms show ?thesis by (simp add: stag_attrs_def)
qed

lemma alias_keys:
  assumes "K = P \<union> fst ` set (map klass kwargs)"
  shows "(''klass'' \<in> fst ` set kwargs \<longrightarrow> ''class'' \<in> K) \<and> (''klass'' \<in> K \<longleftrightarrow> ''klass'' \<in> P)"
  using klass_class_key [of kwargs] klass_not_key [of kwargs] by (simp only: assms) blast

lemma scope_args_Cons:
  "scope_args (c # cs) = scope_args [c] @ scope_args cs"
  "scope_kwargs (c # cs) = scope_kwargs [c] @ scope_kwargs cs"
  by (cases c; simp)+

lemma exec_attrs:
  assumes r: "ready d" and cur: "current_tag d = TagRef t"
    and ok: "exec ord parse c d = Ok u d1" and nc: "no_class_helper c"
  shows "fst ` set (attrs (tags d1 ! t))
       = fst ` set (attrs (tags d ! t)) \<union> set (positional_keys (scope_args [c]))
           \<union> fst ` set (map klass (scope_kwargs [c]))"
proof -
  from r cur have t: "t < length (tags d)" by (simp add: ready_def)
  have same: "tags d1 = tags d \<Longrightarrow> scope_args [c] = [] \<Longrightarrow> scope_kwargs [c] = [] \<Longrightarrow> ?thesis"
    by simp
  show ?thesis
  proof (cases c)
    case (With tag_name args kwargs body)
    with ok obtain t' d' where tg: "tag tag_name args kwargs d = Ok t' d'"
      by (cases "tag tag_name args kwargs d") simp_all
    have g: "grows (Tag_enter t' d') (state (run ord parse body (Tag_enter t' d')))"
      by (rule exec_run_grows(2)) (rule Tag_enter_scope(4) [OF tg r])
    have "d1 = state (exit_with t' (run ord parse body (Tag_enter t' d')))"
      using ok by (simp add: With tg)
    with scope_grows(2) [OF tg r g] t show ?thesis by (simp add: With)
  next
    case (Line tag_name text_content args kwargs)
    with ok obtain t' d' where tg: "tag tag_name args kwargs d = Ok t' d'"
      by (cases "tag tag_name args kwargs d") simp_all
    have g: "grows (Tag_enter t' d') (state (text' [text_content] (Tag_enter t' d')))"
      by (rule grows_text) (rule Tag_enter_scope(4) [OF tg r])
    have "d1 = state (exit_with t' (text' [text_content] (Tag_enter t' d')))"
      using ok by (simp add: Line tg)
    with scope_grows(2) [OF tg r g] t show ?thesis by (simp add: Line)
  next
    case (Text strgs)
    with ok have "d1 = state (text' strgs d)" by simp
    then show ?thesis by (simp add: Text)
  next
    case (Asis strgs)
    with ok have "d1 = state (asis parse strgs d)" by simp
    then show ?thesis by (simp add: Asis)
  next
    case (Stag tag_name args kwargs)
    with ok have "d1 = state (stag tag_name args kwargs d)" by simp
    then show ?thesis by (simp add: Stag)
  next
    case (Cdata strg safe)
    with ok have "d1 = state (cdata strg safe d)" by simp
    then show ?thesis by (simp add: Cdata)
  next
    case (Attr args kwargs)
    with ok cur obtain a where a: "attributes args kwargs = Inr a"
      and d1: "d1 = d\<lparr>tags := (tags d)[t := (tags d ! t)\<lparr>attrs := dict_update (attrs (tags d ! t)) a\<rparr>]\<rparr>"
      by (auto simp: attr_def split: sum.splits)
    from t have "attrs (tags d1 ! t) = dict_update (attrs (tags d ! t)) a" by (simp add: d1)
    then show ?thesis by (simp add: Attr keys_dict_update attributes_keys [OF a] Un_assoc)
  next
    case (Add_class classes)
    with nc show ?thesis by simp
  next
    case (Discard_class classes)
    with nc show ?thesis by simp
  next
    case (Toggle_class elem active)
    with nc show ?thesis by simp
  next
    case (Throw e)
    with ok show ?thesis by simp
  qed
qed

lemma run_attrs:
  "ready d \<Longrightarrow> current_tag d = TagRef t \<Longrightarrow> run ord parse cs d = Ok u d' \<Longrightarrow>
   list_all no_class_helper cs \<Longrightarrow>
   fst ` set (attrs (tags d' ! t))
     = fst ` set (attrs (tags d ! t)) \<union> set (positional_keys (scope_args cs))
         \<union> fst ` set (map klass (scope_kwargs cs))"
proof (induction cs arbitrary: d)
  case Nil
  then show ?case by simp
next
  case (Cons c cs)
  from Cons.prems(3) obtain u1 d1 where e: "exec ord parse c d = Ok u1 d1"
    and rest: "run ord parse cs d1 = Ok u d'"
    by (cases "exec ord parse c d") simp_all
  have g: "grows d d1" using exec_run_grows(1) [OF Cons.prems(1), of ord parse c] by (simp add: e)
  have c: "current_tag d1 = current_tag d"
    using exec_run_frame(1) [of d ord parse c] by (simp add: e)
  have r1: "ready d1" by (rule ready_insertion_node(2) [OF Cons.prems(1) g c])
  from Cons.prems(4) have nc: "no_class_helper c" "list_all no_class_helper cs" by simp_all
  have 1: "fst ` set (attrs (tags d1 ! t))
       = fst ` set (attrs (tags d ! t)) \<union> set (positional_keys (scope_args [c]))
           \<union> fst ` set (map klass (scope_kwargs [c]))"
    by (rule exec_attrs [OF Cons.prems(1,2) e nc(1)])
  have 2: "fst ` set (attrs (tags d' ! t))
       = fst ` set (attrs (tags d1 ! t)) \<union> set (positional_keys (scope_args cs))
           \<union> fst ` set (map klass (scope_kwargs cs))"
    using c Cons.prems(2) by (intro Cons.IH [OF r1 _ rest nc(2)]) simp
  have 3: "set (positional_keys (scope_args (c # cs)))
         = set (positional_keys (scope_args [c])) \<union> set (positional_keys (scope_args cs))"
    by (subst scope_args_Cons(1)) (simp add: positional_keys_append)
  have 4: "fst ` set (map klass (scope_kwargs (c # cs)))
         = fst ` set (map klass (scope_kwargs [c])) \<union> fst ` set (map klass (scope_kwargs cs))"
    by (subst scope_args_Cons(2)) (simp add: image_Un)
  show ?case by (simp only: 1 2 3 4) blast
qed

lemma stag_element:
  assumes w: "wf d" and ok: "raised (stag tag_name args kwargs d) = None"
  shows "\<exists>e. kids (state (stag tag_name args kwargs d)) = kids d @ [e]
           \<and> attr_names e = set (positional_keys args) \<union> fst ` set (map klass kwargs)"
proof -
  from ok obtain a where a: "stag_attrs args kwargs = Inr a"
    by (cases "stag_attrs args kwargs") (simp_all add: stag_eq)
  let ?e = "Bs4Tag tag_name (dict_update [] a) [] True"
  have "kids (state (stag tag_name args kwargs d)) = kids d @ [?e]"
    using wf_append_new(2) [OF w, of ?e] by (simp add: stag_eq a)
  moreover have "attr_names ?e = set (positional_keys args) \<union> fst ` set (map klass kwargs)"
    using stag_attrs_keys [OF a] by (simp add: attr_names_def keys_dict_update)
  ultimately show ?thesis by blast
qed

lemma scope_element:
  assumes w: "wf d"
    and ok: "raised (exec ord parse (With tag_name args kwargs body) d) = None"
    and nc: "list_all no_class_helper body"
  shows "\<exists>e. children (state (exec ord parse (With tag_name args kwargs body) d)) (insertion_node d)
               = kids d @ [e]
           \<and> attr_names e
               = (set (positional_keys args) \<union> set (positional_keys (scope_args body)))
                   \<union> fst ` set (map klass (kwargs @ scope_kwargs body))"
proof -
  let ?p = "insertion_node d"
  let ?b = "length (heap d)"
  let ?e0 = "Bs4Tag tag_name [] [] (can_be_empty_element d tag_name)"
  from w have r: "ready d" by (rule wf_ready)
  from w have p: "?p < ?b" and cont: "container (heap d ! ?p)"
    and cs: "\<forall>a \<in> set (contents (heap d ! ?p)). a < ?b \<and> a \<noteq> ?p"
    by (simp_all add: wf_def list_all_iff)
  from ok obtain t d1 where tg: "tag tag_name args kwargs d = Ok t d1"
    by (cases "tag tag_name args kwargs d") simp_all
  let ?s2 = "Tag_enter t d1"
  from ok tg obtain u s3 where body: "run ord parse body ?s2 = Ok u s3"
    by (cases "run ord parse body ?s2") (simp_all add: exit_with_def reraise_def Tag_exit_Some)
  note tk = tag_Ok [OF tg]
  have t: "t < length (tags d1)" using tk(1,3) by simp
  note en = Tag_enter_frame [OF t]
  note sc = Tag_enter_scope [OF tg r]
  have g: "grows ?s2 s3" using exec_run_grows(2) [OF sc(4), of ord parse body] by (simp add: body)
  have ex: "extends ?s2 s3" using exec_run_frame(2) [of ?s2 ord parse body] by (simp add: body)
  have t2: "t < length (tags ?s2)" using t en(3) by simp
  have b3: "bs4_tag (tags s3 ! t) = ?b" using g t2 en(5) tk(5) by (simp add: grows_def)
  have par: "parent_tag (tags s3 ! t) = Some (current_tag d)"
    using ex t2 en(2) tk(2) by (simp add: extends_def)
  have l2: "length (heap ?s2) = Suc ?b" by (simp add: sc(1))
  have l3: "?b < length (heap s3)" using g l2 by (simp add: grows_def)
  have old2: "heap ?s2 ! a = heap d ! a" if "a < ?b" "a \<noteq> ?p" for a
    using that by (simp add: sc(1) nth_append)
  have p2: "heap ?s2 ! ?p = append_child ?b (heap d ! ?p)" using p by (simp add: sc(1))
  have new2: "heap ?s2 ! ?b = ?e0" using p by (simp add: sc(1))
  have old3: "heap s3 ! a = heap ?s2 ! a" if "a < ?b" for a
    using g that l2 by (simp add: grows_def sc(3))
  have "bare (heap s3 ! ?b) = bare (heap ?s2 ! ?b)" using g by (simp add: grows_def sc(3))
  then have "bare (heap s3 ! ?b) = Bs4Tag tag_name [] [] (can_be_empty_element d tag_name)"
    by (simp add: new2)
  from bare_Bs4Tag [OF this] obtain k where new3:
    "heap s3 ! ?b = Bs4Tag tag_name [] k (can_be_empty_element d tag_name)" by blast
  let ?A = "attrs (tags s3 ! t)"
  define fin where "fin = state (exec ord parse (With tag_name args kwargs body) d)"
  have f: "fin = state (Tag_exit t None s3)"
    by (simp add: fin_def tg body exit_with_def)
  have hf: "heap fin = (if ?A \<noteq> [] then (heap s3)[?b := update_attrs ?A (heap s3 ! ?b)]
                        else heap s3)"
    using par by (simp add: f Tag_exit_def Let_def b3)
  have oldf: "heap fin ! a = heap d ! a" if "a < ?b" "a \<noteq> ?p" for a
    using that by (simp add: hf old3 old2)
  have pf: "heap fin ! ?p = append_child ?b (heap d ! ?p)"
    using p by (simp add: hf old3 p2)
  have an: "attr_names (heap fin ! ?b) = fst ` set ?A"
    using l3 by (cases "?A = []") (simp_all add: hf new3 attr_names_def keys_dict_update)
  have c2: "current_tag ?s2 = TagRef t" by (rule en(1))
  have "fst ` set ?A
      = fst ` set (attrs (tags ?s2 ! t)) \<union> set (positional_keys (scope_args body))
          \<union> fst ` set (map klass (scope_kwargs body))"
    by (rule run_attrs [OF sc(4) c2 body nc])
  moreover have "fst ` set (attrs (tags ?s2 ! t))
      = set (positional_keys args) \<union> fst ` set (map klass kwargs)"
    by (rule attributes_keys) (rule sc(5))
  ultimately have keys: "attr_names (heap fin ! ?b)
      = (set (positional_keys args) \<union> set (positional_keys (scope_args body)))
          \<union> fst ` set (map klass (kwargs @ scope_kwargs body))"
    by (simp only: an) (simp add: image_Un Un_ac)
  have "children fin ?p = map (\<lambda>c. heap fin ! c) (contents (heap d ! ?p) @ [?b])"
    using cont by (simp add: children_def pf contents_append_child)
  also have "\<dots> = map (\<lambda>c. heap d ! c) (contents (heap d ! ?p)) @ [heap fin ! ?b]"
    using cs oldf by simp
  finally have "children fin ?p = kids d @ [heap fin ! ?b]"
    by (simp add: kids_def children_def)
  with keys show ?thesis unfolding fin_def by blast
qed

text \<open>
  C7, as the code has it. Only the keyword arguments are renamed. The element that
  \<open>stag\<close> appends, and the element of a scope \<^verbatim>\<open>with tag(...)\<close> once the scope has
  been left normally (\<^verbatim>\<open>__exit__\<close> puts the attributes on the element only then),
  has an attribute named \<^verbatim>\<open>class\<close> whenever \<^verbatim>\<open>klass\<close> was a keyword argument of the
  call, or for the scope of a call of \<open>attr\<close> in its body; and it has an attribute
  named \<^verbatim>\<open>klass\<close> exactly when a positional argument of one of these calls gave that
  name, as the pair \<^verbatim>\<open>('klass', value)\<close> or the plain string \<^verbatim>\<open>'klass'\<close>. The body of
  the scope is any sequence of statements that does not call a class helper directly
  (they rewrite and remove \<^verbatim>\<open>class\<close>); nested scopes are free.
\<close>

theorem klass_keyword_alias:
  assumes "wf d"
  shows "(raised (stag tag_name args kwargs d) = None \<longrightarrow>
           (\<exists>e. kids (state (stag tag_name args kwargs d)) = kids d @ [e]
              \<and> (''klass'' \<in> fst ` set kwargs \<longrightarrow> ''class'' \<in> attr_names e)
              \<and> (''klass'' \<in> attr_names e \<longleftrightarrow> ''klass'' \<in> set (positional_keys args))))
       \<and> (raised (exec ord parse (With tag_name args kwargs body) d) = None
            \<and> list_all no_class_helper body \<longrightarrow>
           (\<exists>e. children (state (exec ord parse (With tag_name args kwargs body) d))
                   (insertion_node d) = kids d @ [e]
              \<and> (''klass'' \<in> fst ` set kwargs \<union> fst ` set (scope_kwargs body)
                    \<longrightarrow> ''class'' \<in> attr_names e)
              \<and> (''klass'' \<in> attr_names e \<longleftrightarrow>
                    ''klass'' \<in> set (positional_keys args)
                                 \<union> set (positional_keys (scope_args body)))))"
proof (intro conjI impI)
  assume "raised (stag tag_name args kwargs d) = None"
  from stag_element [OF assms this] obtain e
    where k: "kids (state (stag tag_name args kwargs d)) = kids d @ [e]"
      and a: "attr_names e = set (positional_keys args) \<union> fst ` set (map klass kwargs)"
    by blast
  from alias_keys [OF a] k
  show "\<exists>e. kids (state (stag tag_name args kwargs d)) = kids d @ [e]
              \<and> (''klass'' \<in> fst ` set kwargs \<longrightarrow> ''class'' \<in> attr_names e)
              \<and> (''klass'' \<in> attr_names e \<longleftrightarrow> ''klass'' \<in> set (positional_keys args))"
    by blast
next
  assume h: "raised (exec ord parse (With tag_name args kwargs body) d) = None
            \<and> list_all no_class_helper body"
  from scope_element [OF assms h [THEN conjunct1] h [THEN conjunct2]] obtain e
    where k: "children (state (exec ord parse (With tag_name args kwargs body) d))
                (insertion_node d) = kids d @ [e]"
      and a: "attr_names e
               = (set (positional_keys args) \<union> set (positional_keys (scope_args body)))
                   \<union> fst ` set (map klass (kwargs @ scope_kwargs body))"
    by blast
  have "fst ` set (kwargs @ scope_kwargs body) = fst ` set kwargs \<union> fst ` set (scope_kwargs body)"
    by (simp add: image_Un)
  with alias_keys [OF a] k
  show "\<exists>e. children (state (exec ord parse (With tag_name args kwargs body) d))
                   (insertion_node d) = kids d @ [e]
              \<and> (''klass'' \<in> fst ` set kwargs \<union> fst ` set (scope_kwargs body)
                    \<longrightarrow> ''class'' \<in> attr_names e)
              \<and> (''klass'' \<in> attr_names e \<longleftrightarrow>
                    ''klass'' \<in> set (positional_keys args)
                                 \<union> set (positional_keys (scope_args body)))"
    by blast
qed

text \<open>The tests \<^verbatim>\<open>test_stag\<close> and \<^verbatim>\<open>test_attrs\<close>, with the keyword \<^verbatim>\<open>klass\<close>.\<close>

theorem klass_keyword_alias_witness:
  "wf doc0
   \<and> raised (stag ''img'' [] [(''src'', PStr ''/salmon.jpg''), (''klass'', PStr ''animal'')] doc0)
       = None
   \<and> (\<exists>e. kids (state (stag ''img'' []
                 [(''src'', PStr ''/salmon.jpg''), (''klass'', PStr ''animal'')] doc0)) = [e]
          \<and> ''class'' \<in> attr_names e \<and> ''klass'' \<notin> attr_names e)
   \<and> raised (exec id no_parser (With ''div'' [] [(''id'', PStr ''article'')]
                [Attr [] [(''klass'', PStr ''new'')], Text [PStr ''Hello'']]) doc0) = None
   \<and> list_all no_class_helper [Attr [] [(''klass'', PStr ''new'')], Text [PStr ''Hello'']]
   \<and> (\<exists>e. children (state (exec id no_parser (With ''div'' [] [(''id'', PStr ''article'')]
                [Attr [] [(''klass'', PStr ''new'')], Text [PStr ''Hello'']]) doc0)) 0 = [e]
          \<and> ''class'' \<in> attr_names e \<and> ''klass'' \<notin> attr_names e)"
proof -
  have s: "raised (stag ''img'' [] [(''src'', PStr ''/salmon.jpg''), (''klass'', PStr ''animal'')] doc0)
       = None"
    by (simp add: builder_defs doc0_def replace_def)
  have e: "raised (exec id no_parser (With ''div'' [] [(''id'', PStr ''article'')]
                [Attr [] [(''klass'', PStr ''new'')], Text [PStr ''Hello'']]) doc0) = None"
    by (simp add: builder_defs doc0_def)
  have i: "insertion_node doc0 = 0" by (simp add: insertion_node_def doc0_def)
  show ?thesis
    using klass_keyword_alias [OF wf_doc0, where tag_name = "''img''" and args = "[]"
        and kwargs = "[(''src'', PStr ''/salmon.jpg''), (''klass'', PStr ''animal'')]"
        and ord = id and parse = no_parser and body = "[]"]
      klass_keyword_alias [OF wf_doc0, where tag_name = "''div''" and args = "[]"
        and kwargs = "[(''id'', PStr ''article'')]" and ord = id and parse = no_parser
        and body = "[Attr [] [(''klass'', PStr ''new'')], Text [PStr ''Hello'']]"]
      s e wf_doc0
    by (simp add: kids_doc0 i)
qed

text \<open>
  C7 as the specification words it fails for the positional pair:
  \<^verbatim>\<open>stag('img', ('klass', 'animal'))\<close> makes an element with an attribute named
  \<^verbatim>\<open>klass\<close> and none named \<^verbatim>\<open>class\<close>.
\<close>

theorem positional_klass_is_kept:
  "attributes [Pair ''klass'' (PStr ''animal'')] [] = Inr [(''klass'', PStr ''animal'')]
   \<and> heap (state (stag ''img'' [Pair ''klass'' (PStr ''animal'')] [] doc0)) ! 1
       = Bs4Tag ''img'' [(''klass'', PStr ''animal'')] [] True"
  by (simp add: attributes_def dict_update_def stag_def new_tag_def alloc_def doc0_def
      dict_to_attrs_def replace_def DocumentRoot_append_def bs4_append_def
      can_be_empty_element_def)

subsection \<open>The class helpers\<close>

lemma str_items_all:
  "\<forall>x \<in> set xs. \<exists>s. x = PStr s \<Longrightarrow> \<exists>ts. str_items xs = Inr ts \<and> map PStr ts = xs"
proof (induction xs)
  case Nil
  then show ?case by simp
next
  case (Cons x xs)
  then obtain s ts where "x = PStr s" "str_items xs = Inr ts" "map PStr ts = xs" by auto
  then show ?case by simp
qed

lemma inj_PStr: "inj PStr"
  by (rule injI) simp

lemma class_attr_set_attr:
  assumes "current_tag d = TagRef t" and "t < length (tags d)"
  shows "class_attr (set_attr t ''class'' v d) = Some v"
    and "class_attr (del_attr t ''class'' d) = None"
    and "current_tag (set_attr t ''class'' v d) = TagRef t"
    and "current_tag (del_attr t ''class'' d) = TagRef t"
    and "length (tags (set_attr t ''class'' v d)) = length (tags d)"
    and "length (tags (del_attr t ''class'' d)) = length (tags d)"
  using assms
  by (simp_all add: class_attr_def set_attr_def del_attr_def update_conv' delete_conv')

lemma set_classes_str:
  assumes cur: "current_tag d = TagRef t" and t: "t < length (tags d)"
    and S: "set S = PStr ` T" and dS: "distinct S" and ord: "\<forall>xs. mset (ord xs) = mset xs"
  shows "raised (set_classes ord S d) = None
       \<and> current_tag (state (set_classes ord S d)) = TagRef t
       \<and> length (tags (state (set_classes ord S d))) = length (tags d)
       \<and> (\<exists>ts. distinct ts \<and> set ts = T \<and> class_attr (state (set_classes ord S d))
                = (if ts = [] then None else Some (PStr (join '' '' ts))))"
proof (cases "S = []")
  case True
  with S have "T = {}" by simp
  then have "distinct [] \<and> set [] = T" by simp
  with True cur t show ?thesis
    by (auto simp: set_classes_def class_attr_set_attr simp del: set_empty2 intro!: exI [of _ "[]"])
next
  case False
  have os: "set (ord S) = set S" by (rule mset_eq_setD) (simp add: ord)
  have "distinct (ord S) = distinct S" by (rule mset_eq_imp_distinct_iff) (simp add: ord)
  with dS have od: "distinct (ord S)" by simp
  from os S have "\<forall>x \<in> set (ord S). \<exists>s. x = PStr s" by auto
  from str_items_all [OF this] obtain ts where ts: "str_items (ord S) = Inr ts"
    and m: "map PStr ts = ord S" by blast
  have "set (map PStr ts) = PStr ` T" by (simp only: m os S)
  then have "PStr ` set ts = PStr ` T" by simp
  then have sT: "set ts = T" by (simp add: inj_image_eq_iff [OF inj_PStr])
  from od have "distinct (map PStr ts)" by (simp only: m)
  then have dt: "distinct ts" by (simp add: distinct_map)
  from sT False S have "ts \<noteq> []" by auto
  with False cur t ts sT dt show ?thesis
    by (auto simp: set_classes_def class_attr_set_attr)
qed

lemma get_classes_str:
  assumes cur: "current_tag d = TagRef t"
    and str: "class_attr d = None \<or> (\<exists>s. class_attr d = Some (PStr s))"
  shows "\<exists>S. get_classes d = Inr S \<and> distinct S \<and> set S = PStr ` tokens (class_attr d)"
  using assms by (auto simp: get_classes_def class_attr_def)

lemma class_ops_general:
  assumes cur: "current_tag d = TagRef t" and t: "t < length (tags d)"
    and str: "class_attr d = None \<or> (\<exists>s. class_attr d = Some (PStr s))"
    and ord: "\<forall>xs. mset (ord xs) = mset xs"
  shows "raised (add_class ord classes d) = None
         \<and> current_tag (state (add_class ord classes d)) = TagRef t
         \<and> length (tags (state (add_class ord classes d))) = length (tags d)
         \<and> (\<exists>ts. distinct ts \<and> set ts = tokens (class_attr d) \<union> set classes
              \<and> class_attr (state (add_class ord classes d))
                  = (if ts = [] then None else Some (PStr (join '' '' ts))))"
    and "raised (discard_class ord classes d) = None
         \<and> current_tag (state (discard_class ord classes d)) = TagRef t
         \<and> length (tags (state (discard_class ord classes d))) = length (tags d)
         \<and> (\<exists>ts. distinct ts \<and> set ts = tokens (class_attr d) - set classes
              \<and> class_attr (state (discard_class ord classes d))
                  = (if ts = [] then None else Some (PStr (join '' '' ts))))"
    and "raised (toggle_class ord elem active d) = None
         \<and> current_tag (state (toggle_class ord elem active d)) = TagRef t
         \<and> length (tags (state (toggle_class ord elem active d))) = length (tags d)
         \<and> (\<exists>ts. distinct ts \<and> set ts = (if active then insert elem (tokens (class_attr d))
                             else tokens (class_attr d) - {elem})
              \<and> class_attr (state (toggle_class ord elem active d))
                  = (if ts = [] then None else Some (PStr (join '' '' ts))))"
proof -
  from get_classes_str [OF cur str] obtain S where g: "get_classes d = Inr S"
    and dS: "distinct S"
    and S: "set S = PStr ` tokens (class_attr d)" by blast
  have a: "set (List.union (map PStr classes) S) = PStr ` (tokens (class_attr d) \<union> set classes)"
    using S by (auto simp: image_Un)
  have da: "distinct (List.union (map PStr classes) S)"
    using dS by simp
  have b: "set (filter (\<lambda>c. c \<notin> set (map PStr classes)) S)
         = PStr ` (tokens (class_attr d) - set classes)"
    using S by auto
  have db: "distinct (filter (\<lambda>c. c \<notin> set (map PStr classes)) S)"
    using dS by simp
  have c: "set (if active then List.insert (PStr elem) S else removeAll (PStr elem) S)
         = PStr ` (if active then insert elem (tokens (class_attr d))
                   else tokens (class_attr d) - {elem})"
    using S by auto
  have dc: "distinct (if active then List.insert (PStr elem) S else removeAll (PStr elem) S)"
    using dS by (simp add: distinct_removeAll)
  show "raised (add_class ord classes d) = None
         \<and> current_tag (state (add_class ord classes d)) = TagRef t
         \<and> length (tags (state (add_class ord classes d))) = length (tags d)
         \<and> (\<exists>ts. distinct ts \<and> set ts = tokens (class_attr d) \<union> set classes
              \<and> class_attr (state (add_class ord classes d))
                  = (if ts = [] then None else Some (PStr (join '' '' ts))))"
    using set_classes_str [OF cur t a da ord] by (simp add: add_class_def g)
  show "raised (discard_class ord classes d) = None
         \<and> current_tag (state (discard_class ord classes d)) = TagRef t
         \<and> length (tags (state (discard_class ord classes d))) = length (tags d)
         \<and> (\<exists>ts. distinct ts \<and> set ts = tokens (class_attr d) - set classes
              \<and> class_attr (state (discard_class ord classes d))
                  = (if ts = [] then None else Some (PStr (join '' '' ts))))"
    using set_classes_str [OF cur t b db ord] by (simp add: discard_class_def g)
  show "raised (toggle_class ord elem active d) = None
         \<and> current_tag (state (toggle_class ord elem active d)) = TagRef t
         \<and> length (tags (state (toggle_class ord elem active d))) = length (tags d)
         \<and> (\<exists>ts. distinct ts \<and> set ts = (if active then insert elem (tokens (class_attr d))
                             else tokens (class_attr d) - {elem})
              \<and> class_attr (state (toggle_class ord elem active d))
                  = (if ts = [] then None else Some (PStr (join '' '' ts))))"
    using set_classes_str [OF cur t c dc ord] by (simp add: toggle_class_def g)
qed

lemma find_plain:
  assumes "\<forall>w \<in> set str_whitespace. hd w \<noteq> c"
  shows "find (\<lambda>w. w \<noteq> [] \<and> prefix w (c # cs)) str_whitespace = None"
proof -
  have "\<not> (w \<noteq> [] \<and> prefix w (c # cs))" if "w \<in> set str_whitespace" for w
  proof
    assume a: "w \<noteq> [] \<and> prefix w (c # cs)"
    then obtain x xs where "w = x # xs" by (cases w) auto
    with a have "hd w = c" by simp
    with assms that show False by blast
  qed
  then show ?thesis by (simp add: find_None_iff)
qed

lemma find_space:
  "find (\<lambda>w. w \<noteq> [] \<and> prefix w (CHR '' '' # cs)) str_whitespace = Some [CHR '' '']"
  by (simp add: str_whitespace_def)

lemma split_whitespace_token:
  "\<forall>c \<in> set t. \<forall>w \<in> set str_whitespace. hd w \<noteq> c \<Longrightarrow>
     split_whitespace str_whitespace tok (t @ rest) = split_whitespace str_whitespace (tok @ t) rest"
proof (induction t arbitrary: tok)
  case Nil
  show ?case by simp
next
  case (Cons c t)
  then have "find (\<lambda>w. w \<noteq> [] \<and> prefix w (c # t @ rest)) str_whitespace = None"
    by (simp add: find_plain)
  then show ?case using Cons by simp
qed

lemma split_whitespace_join:
  "\<forall>t \<in> set ts. plain t \<Longrightarrow> split_whitespace str_whitespace [] (join '' '' ts) = ts"
proof (induction ts rule: induct_list012)
  case 1
  show ?case by (simp add: flush_def)
next
  case (2 p)
  then have p: "plain p" by simp
  then have "split_whitespace str_whitespace [] (p @ []) = split_whitespace str_whitespace ([] @ p) []"
    by (intro split_whitespace_token) (simp add: plain_def)
  with p show ?case by (simp add: plain_def flush_def)
next
  case (3 p q ps)
  then have p: "plain p" and r: "split_whitespace str_whitespace [] (join '' '' (q # ps)) = q # ps"
    by simp_all
  have "split_whitespace str_whitespace [] (p @ '' '' @ join '' '' (q # ps))
      = split_whitespace str_whitespace ([] @ p) ('' '' @ join '' '' (q # ps))"
    using p by (intro split_whitespace_token) (simp add: plain_def)
  also have "\<dots> = flush p @ split_whitespace str_whitespace [] (join '' '' (q # ps))"
    by (simp add: find_space)
  finally show ?case using p r by (simp add: plain_def flush_def)
qed

lemma tokens_join:
  "\<forall>t \<in> set ts. plain t \<Longrightarrow> ts \<noteq> [] \<Longrightarrow> tokens (Some (PStr (join '' '' ts))) = set ts"
  by (simp add: split_whitespace_join)

lemma plain_examples:
  "plain ''news''" "plain ''highlight''" "plain ''today''" "plain ''active''"
  by (simp_all add: plain_def str_whitespace_def)

lemma tokens_news: "tokens (Some (PStr ''news'')) = {''news''}"
  using tokens_join [of "[''news'']"] plain_examples by simp

lemma class_ops_example:
  assumes cur: "current_tag d = TagRef t" and t: "t < length (tags d)"
    and news: "class_attr d = Some (PStr ''news'')"
    and ord: "\<forall>xs. mset (ord xs) = mset xs"
  shows "raised (run ord parse [Add_class [''highlight'', ''today''], Discard_class [''news''],
                          Toggle_class ''active'' True] d) = None
       \<and> tokens (class_attr (state (run ord parse [Add_class [''highlight'', ''today''],
                          Discard_class [''news''], Toggle_class ''active'' True] d)))
           = {''highlight'', ''today'', ''active''}"
proof -
  have plains: "\<forall>t \<in> {''news'', ''highlight'', ''today'', ''active''}. plain t"
    using plain_examples by simp
  have tok: "tokens (class_attr d') = set ts"
    if "set ts \<subseteq> {''news'', ''highlight'', ''today'', ''active''}" "ts \<noteq> []"
      "class_attr d' = (if ts = [] then None else Some (PStr (join '' '' ts)))" for d' ts
  proof -
    from that(1) plains have "\<forall>t \<in> set ts. plain t" by blast
    from tokens_join [OF this that(2)] that(2,3) show ?thesis by simp
  qed
  let ?r1 = "add_class ord [''highlight'', ''today''] d"
  let ?d1 = "state ?r1"
  have str0: "class_attr d = None \<or> (\<exists>s. class_attr d = Some (PStr s))"
    using news by simp
  from class_ops_general(1) [OF cur t str0 ord, of "[''highlight'', ''today'']"]
  obtain ts1 where r1: "raised ?r1 = None" and c1: "current_tag ?d1 = TagRef t"
    and l1: "length (tags ?d1) = length (tags d)"
    and s1: "set ts1 = tokens (class_attr d) \<union> set [''highlight'', ''today'']"
    and a1: "class_attr ?d1 = (if ts1 = [] then None else Some (PStr (join '' '' ts1)))"
    by blast
  have e1: "set ts1 = {''news'', ''highlight'', ''today''}"
    by (simp only: s1 news tokens_news list.set) blast
  then have n1: "ts1 \<noteq> []" by (cases ts1) simp_all
  have k1: "tokens (class_attr ?d1) = {''news'', ''highlight'', ''today''}"
    using tok [OF _ n1 a1] e1 by simp
  have str1: "class_attr ?d1 = None \<or> (\<exists>s. class_attr ?d1 = Some (PStr s))"
    by (simp add: a1)
  have t1: "t < length (tags ?d1)" using t l1 by simp
  let ?r2 = "discard_class ord [''news''] ?d1"
  let ?d2 = "state ?r2"
  from class_ops_general(2) [OF c1 t1 str1 ord, of "[''news'']"]
  obtain ts2 where r2: "raised ?r2 = None" and c2: "current_tag ?d2 = TagRef t"
    and l2: "length (tags ?d2) = length (tags ?d1)"
    and s2: "set ts2 = tokens (class_attr ?d1) - set [''news'']"
    and a2: "class_attr ?d2 = (if ts2 = [] then None else Some (PStr (join '' '' ts2)))"
    by blast
  have e2: "set ts2 = {''highlight'', ''today''}"
    by (simp only: s2 k1) simp
  then have n2: "ts2 \<noteq> []" by (cases ts2) simp_all
  have k2: "tokens (class_attr ?d2) = {''highlight'', ''today''}"
    using tok [OF _ n2 a2] e2 by simp
  have str2: "class_attr ?d2 = None \<or> (\<exists>s. class_attr ?d2 = Some (PStr s))"
    by (simp add: a2)
  have t2: "t < length (tags ?d2)" using t1 l2 by simp
  let ?r3 = "toggle_class ord ''active'' True ?d2"
  let ?d3 = "state ?r3"
  from class_ops_general(3) [OF c2 t2 str2 ord, of "''active''" True]
  obtain ts3 where r3: "raised ?r3 = None"
    and s3: "set ts3 = insert ''active'' (tokens (class_attr ?d2))"
    and a3: "class_attr ?d3 = (if ts3 = [] then None else Some (PStr (join '' '' ts3)))"
    by auto
  have e3: "set ts3 = {''highlight'', ''today'', ''active''}"
    by (simp only: s3 k2) blast
  then have n3: "ts3 \<noteq> []" by (cases ts3) simp_all
  have k3: "tokens (class_attr ?d3) = {''highlight'', ''today'', ''active''}"
    using tok [OF _ n3 a3] e3 by simp
  obtain d1 where o1: "?r1 = Ok () d1" using r1 by (cases ?r1) auto
  obtain d2 where o2: "discard_class ord [''news''] d1 = Ok () d2"
    using r2 o1 by (cases "discard_class ord [''news''] d1") auto
  obtain d3 where o3: "toggle_class ord ''active'' True d2 = Ok () d3"
    using r3 o1 o2 by (cases "toggle_class ord ''active'' True d2") auto
  have "run ord parse [Add_class [''highlight'', ''today''], Discard_class [''news''],
                 Toggle_class ''active'' True] d = Ok () d3"
    using o1 o2 o3 by simp
  moreover have "tokens (class_attr d3) = {''highlight'', ''today'', ''active''}"
    using k3 o1 o2 o3 by simp
  ultimately show ?thesis by simp
qed

text \<open>
  C8, as the code has it. At a Tag object whose \<^verbatim>\<open>class\<close> attribute is absent or
  a string, and for every order \<open>ord\<close> in which a set is enumerated (each element
  once), \<open>add_class\<close>, \<open>discard_class\<close> and \<open>toggle_class\<close> succeed, keep the
  insertion point, and leave the attribute absent when the new token set (the union,
  the difference, the set with or without \<open>elem\<close>) is empty, and else the tokens of
  that set, each once, joined by spaces. From \<^verbatim>\<open>class="news"\<close>, adding
  \<^verbatim>\<open>highlight\<close> and \<^verbatim>\<open>today\<close>, discarding \<^verbatim>\<open>news\<close> and toggling \<^verbatim>\<open>active\<close>
  on leaves a string whose tokens are exactly \<^verbatim>\<open>highlight\<close>, \<^verbatim>\<open>today\<close> and
  \<^verbatim>\<open>active\<close>, whatever the order.
\<close>

theorem class_helpers:
  assumes cur: "current_tag d = TagRef t" and t: "t < length (tags d)"
    and str: "class_attr d = None \<or> (\<exists>s. class_attr d = Some (PStr s))"
    and ord: "\<forall>xs. mset (ord xs) = mset xs"
  shows "(raised (add_class ord classes d) = None
          \<and> current_tag (state (add_class ord classes d)) = current_tag d
          \<and> (\<exists>ts. distinct ts \<and> set ts = tokens (class_attr d) \<union> set classes
               \<and> class_attr (state (add_class ord classes d))
                   = (if ts = [] then None else Some (PStr (join '' '' ts)))))
       \<and> (raised (discard_class ord classes d) = None
          \<and> current_tag (state (discard_class ord classes d)) = current_tag d
          \<and> (\<exists>ts. distinct ts \<and> set ts = tokens (class_attr d) - set classes
               \<and> class_attr (state (discard_class ord classes d))
                   = (if ts = [] then None else Some (PStr (join '' '' ts)))))
       \<and> (raised (toggle_class ord elem active d) = None
          \<and> current_tag (state (toggle_class ord elem active d)) = current_tag d
          \<and> (\<exists>ts. distinct ts \<and> set ts = (if active then insert elem (tokens (class_attr d))
                              else tokens (class_attr d) - {elem})
               \<and> class_attr (state (toggle_class ord elem active d))
                   = (if ts = [] then None else Some (PStr (join '' '' ts)))))
       \<and> (class_attr d = Some (PStr ''news'') \<longrightarrow>
            raised (run ord parse [Add_class [''highlight'', ''today''], Discard_class [''news''],
                             Toggle_class ''active'' True] d) = None
            \<and> tokens (class_attr (state (run ord parse [Add_class [''highlight'', ''today''],
                             Discard_class [''news''], Toggle_class ''active'' True] d)))
                = {''highlight'', ''today'', ''active''})"
  using class_ops_general(1) [OF cur t str ord, of classes]
    class_ops_general(2) [OF cur t str ord, of classes]
    class_ops_general(3) [OF cur t str ord, of elem active]
    class_ops_example [OF cur t _ ord] cur
  by simp

text \<open>The test \<^verbatim>\<open>test_html_classes\<close>, with the sets enumerated backwards.\<close>

theorem class_helpers_witness:
  "current_tag doc_news = TagRef 0 \<and> 0 < length (tags doc_news)
   \<and> class_attr doc_news = Some (PStr ''news'')
   \<and> (\<forall>xs :: pyval list. mset (rev xs) = mset xs)
   \<and> raised (run rev no_parser [Add_class [''highlight'', ''today''], Discard_class [''news''],
                       Toggle_class ''active'' True] doc_news) = None
   \<and> tokens (class_attr (state (run rev no_parser [Add_class [''highlight'', ''today''],
                       Discard_class [''news''], Toggle_class ''active'' True] doc_news)))
       = {''highlight'', ''today'', ''active''}"
proof -
  have h: "current_tag doc_news = TagRef 0" "0 < length (tags doc_news)"
    "class_attr doc_news = Some (PStr ''news'')"
    by (simp_all add: doc_news_def class_attr_def)
  have o: "\<forall>xs :: pyval list. mset (rev xs) = mset xs" by simp
  have s: "class_attr doc_news = None \<or> (\<exists>s. class_attr doc_news = Some (PStr s))"
    by (simp add: h)
  from class_helpers [OF h(1,2) s o, of "[]" "[]" False] h show ?thesis
    by (simp only: simp_thms) simp
qed

text \<open>
  C8 as the specification words it, for every state of the \<^verbatim>\<open>class\<close> attribute,
  fails when the attribute is not a string: inside \<^verbatim>\<open>with tag('p', klass=5)\<close> the
  attribute is the number 5, which has no \<^verbatim>\<open>split\<close>, and \<^verbatim>\<open>add_class('x')\<close> raises
  an AttributeError.
\<close>

theorem class_attr_number_raises:
  "raised (run id no_parser [With ''p'' [] [(''klass'', PInt 5)] [Add_class [''x'']]] doc0)
     = Some AttributeError"
  by (simp add: builder_defs doc0_def add_class_def get_classes_def)

end
